theory Spec2Isabelle
  imports Complex_Main
begin

section \<open>PerformanceArena: data model\<close>

text \<open>
  The embedding follows \<^verbatim>\<open>src/PerformanceArena.ts\<close>.

  \<^item> A JavaScript \<^verbatim>\<open>number\<close> that holds a time is an exact \<open>real\<close>: clock readings and
    event time stamps are finite, so \<^verbatim>\<open>NaN\<close> and the infinities do not occur, and the
    subtraction \<^verbatim>\<open>perfNow - currentRefTime\<close> is taken without rounding.  The counter
    \<^verbatim>\<open>totalCycles\<close> is a \<open>nat\<close>.
  \<^item> The clock \<^verbatim>\<open>nowFn()\<close> is read once per call of \<^verbatim>\<open>startStage\<close>/\<^verbatim>\<open>endStage\<close>; the
    value it returns is the parameter \<open>perfNow\<close> of the model.
  \<^item> The optional \<^verbatim>\<open>event\<close> of \<^verbatim>\<open>endStage\<close> is a \<open>number option\<close>: \<open>Some ts\<close> is an event
    object whose \<^verbatim>\<open>timeStamp\<close> is \<open>ts\<close> (any object is truthy), \<open>None\<close> is no event.
  \<^item> Objects and arrays are mutable and shared by reference, so they live in a store:
    one typed heap per kind of object, with one allocation counter.  A garbage collected
    language has no dangling reference, hence the heaps are total functions.
  \<^item> \<^verbatim>\<open>this.records\<close> and \<^verbatim>\<open>this.cache\<close> are object literals \<^verbatim>\<open>{}\<close>: a read
    \<^verbatim>\<open>this.records[name]\<close> finds an own property, or else a property inherited from
    \<^verbatim>\<open>Object.prototype\<close>, or else \<^verbatim>\<open>undefined\<close>.
  \<^item> The callback \<^verbatim>\<open>onPurgeCallback\<close> is opaque: the model keeps whether one is configured
    and logs every invocation (stage name and the reference it was handed).  It is
    assumed to return normally and not to call back into the arena.
  \<^item> The assignment \<^verbatim>\<open>window.performanceArena = this.records\<close> only publishes a second
    reference for debugging tools and is not modelled.
\<close>

type_synonym number = real
type_synonym StageNameType = string
type_synonym addr = nat

datatype StageExecutionType = Sync | Async

record StageExtenedType =
  name :: StageNameType
  type :: "StageExecutionType option"

datatype Stage = StageName StageNameType | StageExtened StageExtenedType

text \<open>An entry \<^verbatim>\<open>{ r: number; t: number }\<close> of \<^verbatim>\<open>recentCycles\<close>.\<close>

record Cycle =
  r :: number
  t :: number

text \<open>\<^verbatim>\<open>currentRefTime: number | Array<number>\<close>; the array is a reference.\<close>

datatype RefTime = Num number | Arr addr

record StagePerfData =
  currentRefTime :: RefTime
  totalCycles :: nat
  recentCycles :: addr

record PerformanceArena =
  stages :: "StageExtenedType list"
  records :: "StageNameType \<rightharpoonup> addr"
  cache :: "StageNameType \<rightharpoonup> StageExecutionType"
  skipRecording :: bool
  enableLiveDebug :: bool
  inMemCycles :: number
  onPurgeCallback :: bool
  objects :: "addr \<Rightarrow> StagePerfData"
  numArrays :: "addr \<Rightarrow> number list"
  cycArrays :: "addr \<Rightarrow> Cycle list"
  nextAddr :: addr
  purgeCalls :: "(StageNameType \<times> addr) list"

text \<open>
  Errors as values.  \<open>DuplicateStage\<close> is the \<^verbatim>\<open>Error\<close> thrown by
  \<^verbatim>\<open>initializePerformanceData\<close>; \<open>TypeError\<close> and \<open>SyntaxError\<close> are the run-time errors
  of JavaScript (a method called on \<^verbatim>\<open>undefined\<close>, \<^verbatim>\<open>JSON.parse(undefined)\<close>).
  \<open>OutsideModel\<close> marks the few branches in which the JavaScript would write to an object
  that this data model has no place for (the \<^verbatim>\<open>__proto__\<close> setter, a property of a
  built-in function, a cast \<^verbatim>\<open>as number\<close> applied to an array).  The lemmas
  \<open>constructor_error\<close> and \<open>applyOp_inside_model\<close> show that the arena never reaches them
  through its public operations.
\<close>

datatype error = DuplicateStage | TypeError | SyntaxError | OutsideModel

subsection \<open>Property lookup on an object literal\<close>

text \<open>
  The result of a read \<^verbatim>\<open>obj[key]\<close> on an object literal whose own properties are the
  map \<open>obj\<close>.  \<open>objectPrototypeKeys\<close> are the properties every object literal inherits
  from \<^verbatim>\<open>Object.prototype\<close>: functions, and the accessor \<^verbatim>\<open>__proto__\<close>, which yields
  \<^verbatim>\<open>Object.prototype\<close> itself.  Each of these values is truthy, none is the string
  \<^verbatim>\<open>'sync'\<close>, and none has a property \<^verbatim>\<open>currentRefTime\<close> or \<^verbatim>\<open>recentCycles\<close>.
\<close>

datatype 'a lookup = Own 'a | Inherited | Undefined

definition objectPrototypeKeys :: "string list" where
  "objectPrototypeKeys =
     [''constructor'', ''__proto__'', ''hasOwnProperty'', ''isPrototypeOf'',
      ''propertyIsEnumerable'', ''toLocaleString'', ''toString'', ''valueOf'',
      ''__defineGetter__'', ''__defineSetter__'', ''__lookupGetter__'',
      ''__lookupSetter__'']"

definition getProp :: "(string \<rightharpoonup> 'a) \<Rightarrow> string \<Rightarrow> 'a lookup" where
  "getProp obj key =
     (case obj key of
        Some v \<Rightarrow> Own v
      | None \<Rightarrow> if key \<in> set objectPrototypeKeys then Inherited else Undefined)"

subsection \<open>Allocation and the JSON round trip\<close>

definition newObject :: "StagePerfData \<Rightarrow> PerformanceArena \<Rightarrow> addr \<times> PerformanceArena" where
  "newObject v s =
     (nextAddr s, s\<lparr>objects := (objects s)(nextAddr s := v), nextAddr := nextAddr s + 1\<rparr>)"

definition newNumArray :: "number list \<Rightarrow> PerformanceArena \<Rightarrow> addr \<times> PerformanceArena" where
  "newNumArray xs s =
     (nextAddr s, s\<lparr>numArrays := (numArrays s)(nextAddr s := xs), nextAddr := nextAddr s + 1\<rparr>)"

definition newCycArray :: "Cycle list \<Rightarrow> PerformanceArena \<Rightarrow> addr \<times> PerformanceArena" where
  "newCycArray xs s =
     (nextAddr s, s\<lparr>cycArrays := (cycArrays s)(nextAddr s := xs), nextAddr := nextAddr s + 1\<rparr>)"

text \<open>The value of a \<^verbatim>\<open>StagePerfData\<close> object: what \<^verbatim>\<open>JSON.stringify\<close> writes down.\<close>

datatype RefTimeV = NumV number | ArrV "number list"

record StagePerfDataV =
  currentRefTimeV :: RefTimeV
  totalCyclesV :: nat
  recentCyclesV :: "Cycle list"

definition JSON_stringify :: "PerformanceArena \<Rightarrow> addr \<Rightarrow> StagePerfDataV" where
  "JSON_stringify s a =
     \<lparr>currentRefTimeV =
        (case currentRefTime (objects s a) of
           Num n \<Rightarrow> NumV n
         | Arr q \<Rightarrow> ArrV (numArrays s q)),
      totalCyclesV = totalCycles (objects s a),
      recentCyclesV = cycArrays s (recentCycles (objects s a))\<rparr>"

text \<open>\<^verbatim>\<open>JSON.parse\<close> builds the value again out of objects that did not exist before.\<close>

definition JSON_parse :: "StagePerfDataV \<Rightarrow> PerformanceArena \<Rightarrow> addr \<times> PerformanceArena" where
  "JSON_parse v s =
     (let (ref, s1) =
            (case currentRefTimeV v of
               NumV n \<Rightarrow> (Num n, s)
             | ArrV xs \<Rightarrow> (let (q, s') = newNumArray xs s in (Arr q, s')));
          (rc, s2) = newCycArray (recentCyclesV v) s1
      in newObject \<lparr>currentRefTime = ref, totalCycles = totalCyclesV v, recentCycles = rc\<rparr> s2)"

section \<open>The operations of the class\<close>

subsection \<open>\<^verbatim>\<open>initializePerformanceData\<close> and the constructor\<close>

text \<open>The body of the \<^verbatim>\<open>forEach\<close> callback, for one stage.\<close>

definition initializeStage :: "bool \<Rightarrow> Stage \<Rightarrow> PerformanceArena \<Rightarrow> error + PerformanceArena" where
  "initializeStage forceInitialize stage s =
     (let s0 = (case stage of
                  StageName nm \<Rightarrow> \<lparr>name = nm, type = Some Sync\<rparr>
                | StageExtened e \<Rightarrow> e);
          ty = (case type s0 of None \<Rightarrow> Sync | Some x \<Rightarrow> x);
          st = s0\<lparr>type := Some ty\<rparr>
      in if getProp (records s) (name st) \<noteq> Undefined \<and> \<not> forceInitialize
         then Inl DuplicateStage
         else if name st = ''__proto__'' then Inl OutsideModel
         else
           let (ref, s1) = (if ty = Async
                            then (let (q, s') = newNumArray [] s in (Arr q, s'))
                            else (Num 0, s));
               (rc, s2) = newCycArray [] s1;
               (a, s3) = newObject
                           \<lparr>currentRefTime = ref, totalCycles = 0, recentCycles = rc\<rparr> s2
           in Inr (s3\<lparr>stages := stages s3 @ [st],
                      records := (records s3)(name st \<mapsto> a),
                      cache := (cache s3)(name st \<mapsto> ty)\<rparr>))"

fun initializePerformanceData ::
  "Stage list \<Rightarrow> bool \<Rightarrow> PerformanceArena \<Rightarrow> error + PerformanceArena" where
  "initializePerformanceData [] forceInitialize s = Inr s"
| "initializePerformanceData (stage # rest) forceInitialize s =
     (case initializeStage forceInitialize stage s of
        Inl e \<Rightarrow> Inl e
      | Inr s' \<Rightarrow> initializePerformanceData rest forceInitialize s')"

text \<open>
  The constructor.  The optional parameters are \<open>None\<close> when left out; the callback is
  given as the flag whether one was passed.
\<close>

definition emptyArena :: "bool \<Rightarrow> bool \<Rightarrow> number \<Rightarrow> bool \<Rightarrow> PerformanceArena" where
  "emptyArena skip live inMem onPurge =
     \<lparr>stages = [], records = Map.empty, cache = Map.empty,
      skipRecording = skip, enableLiveDebug = live, inMemCycles = inMem,
      onPurgeCallback = onPurge,
      objects = (\<lambda>_. \<lparr>currentRefTime = Num 0, totalCycles = 0, recentCycles = 0\<rparr>),
      numArrays = (\<lambda>_. []), cycArrays = (\<lambda>_. []), nextAddr = 0, purgeCalls = []\<rparr>"

definition constructor ::
  "Stage list \<Rightarrow> bool option \<Rightarrow> number option \<Rightarrow> bool option \<Rightarrow> bool
     \<Rightarrow> error + PerformanceArena" where
  "constructor stgs skipRec inMem liveDebug onPurge =
     initializePerformanceData stgs False
       (emptyArena (skipRec = Some True) (liveDebug = Some True)
          (if liveDebug = Some True
           then (case inMem of None \<Rightarrow> 250 | Some n \<Rightarrow> if n = 0 then 250 else n)
           else 1)
          onPurge)"

text \<open>
  The two listeners that \<^verbatim>\<open>listenForEventsPerformanceData\<close> registers (only when
  \<^verbatim>\<open>enableLiveDebug\<close> is set): \<^verbatim>\<open>reset-performance-data\<close> and \<^verbatim>\<open>init-performance-data\<close>.
  The \<^verbatim>\<open>forEach\<close> of the reset visits the stages that were in \<^verbatim>\<open>this.stages\<close> when it
  started, while the body appends to the same array.
\<close>

definition resetPerformanceData :: "PerformanceArena \<Rightarrow> error + PerformanceArena" where
  "resetPerformanceData s = initializePerformanceData (map StageExtened (stages s)) True s"

definition initPerformanceData :: "bool \<Rightarrow> PerformanceArena \<Rightarrow> PerformanceArena" where
  "initPerformanceData skip s = s\<lparr>skipRecording := skip\<rparr>"

subsection \<open>\<^verbatim>\<open>startStage\<close>\<close>

definition startStage ::
  "StageNameType \<Rightarrow> number \<Rightarrow> PerformanceArena \<Rightarrow> error + PerformanceArena" where
  "startStage nm perfNow s =
     (if skipRecording s then Inr s
      else case getProp (records s) nm of
        Undefined \<Rightarrow> Inr s
      | Inherited \<Rightarrow>
          \<comment> \<open>the record is a built-in function: its \<^verbatim>\<open>currentRefTime\<close> is \<^verbatim>\<open>undefined\<close>\<close>
          (if cache s nm = Some Sync then Inl OutsideModel else Inl TypeError)
      | Own a \<Rightarrow>
          if cache s nm = Some Sync
          then Inr (s\<lparr>objects := (objects s)(a := (objects s a)\<lparr>currentRefTime := Num perfNow\<rparr>)\<rparr>)
          else (case currentRefTime (objects s a) of
                  Arr q \<Rightarrow> Inr (s\<lparr>numArrays := (numArrays s)(q := numArrays s q @ [perfNow])\<rparr>)
                | Num _ \<Rightarrow> Inl TypeError))"

subsection \<open>\<^verbatim>\<open>markTime\<close> and \<^verbatim>\<open>purgeArena\<close>\<close>

definition markTime ::
  "StageNameType \<Rightarrow> number \<Rightarrow> number \<Rightarrow> PerformanceArena \<Rightarrow> error + PerformanceArena" where
  "markTime nm refTime totalTime s =
     (case getProp (records s) nm of
        Own a \<Rightarrow>
          let rc = recentCycles (objects s a);
              s1 = s\<lparr>cycArrays := (cycArrays s)(rc := cycArrays s rc @ [\<lparr>r = refTime, t = totalTime\<rparr>])\<rparr>
          in Inr (s1\<lparr>objects := (objects s1)
                        (a := (objects s1 a)\<lparr>totalCycles := totalCycles (objects s1 a) + 1\<rparr>)\<rparr>)
      | Inherited \<Rightarrow> Inl TypeError
      | Undefined \<Rightarrow> Inl TypeError)"

definition purgeArena :: "StageNameType \<Rightarrow> PerformanceArena \<Rightarrow> error + PerformanceArena" where
  "purgeArena nm s =
     (case getProp (records s) nm of
        Own a \<Rightarrow>
          let s1 = (if onPurgeCallback s
                    then (let (snap, s') = JSON_parse (JSON_stringify s a) s
                          in s'\<lparr>purgeCalls := purgeCalls s' @ [(nm, snap)]\<rparr>)
                    else s);
              (rc, s2) = newCycArray [] s1
          in Inr (s2\<lparr>objects := (objects s2)(a := (objects s2 a)\<lparr>recentCycles := rc\<rparr>)\<rparr>)
      | Inherited \<Rightarrow> Inl OutsideModel
      | Undefined \<Rightarrow> if onPurgeCallback s then Inl SyntaxError else Inl TypeError)"

subsection \<open>\<^verbatim>\<open>endStage\<close>\<close>

text \<open>
  Lines 77 to 84: the reference time the call works with, \<open>None\<close> for \<^verbatim>\<open>undefined\<close>,
  together with the state after the \<^verbatim>\<open>shift()\<close>.
\<close>

definition resolveRefTime ::
  "StageNameType \<Rightarrow> number option \<Rightarrow> addr \<Rightarrow> PerformanceArena
     \<Rightarrow> error + (number option \<times> PerformanceArena)" where
  "resolveRefTime nm event a s =
     (case event of
        Some timeStamp \<Rightarrow> Inr (Some timeStamp, s)
      | None \<Rightarrow>
          if cache s nm = Some Sync
          then (case currentRefTime (objects s a) of
                  Num n \<Rightarrow> Inr (Some n, s)
                | Arr _ \<Rightarrow> Inl OutsideModel)
          else (case currentRefTime (objects s a) of
                  Arr q \<Rightarrow>
                    (case numArrays s q of
                       [] \<Rightarrow> Inr (None, s)
                     | x # xs \<Rightarrow> Inr (Some x, s\<lparr>numArrays := (numArrays s)(q := xs)\<rparr>))
                | Num _ \<Rightarrow> Inl TypeError))"

text \<open>Lines 94 to 100: what happens to \<^verbatim>\<open>recentCycles\<close> after the cycle is recorded.\<close>

definition retainOrPurge :: "StageNameType \<Rightarrow> addr \<Rightarrow> PerformanceArena \<Rightarrow> error + PerformanceArena" where
  "retainOrPurge nm a s =
     (if enableLiveDebug s
      then (let rc = recentCycles (objects s a)
            in if real (length (cycArrays s rc)) \<ge> inMemCycles s
               then Inr (s\<lparr>cycArrays := (cycArrays s)(rc := tl (cycArrays s rc))\<rparr>)
               else Inr s)
      else purgeArena nm s)"

definition endStage ::
  "StageNameType \<Rightarrow> number option \<Rightarrow> number \<Rightarrow> PerformanceArena \<Rightarrow> error + PerformanceArena" where
  "endStage nm event perfNow s =
     (if skipRecording s then Inr s
      else case getProp (records s) nm of
        Undefined \<Rightarrow> Inr s
      | Inherited \<Rightarrow>
          \<comment> \<open>the record is a built-in function without \<^verbatim>\<open>currentRefTime\<close> and \<^verbatim>\<open>recentCycles\<close>\<close>
          (case event of
             Some timeStamp \<Rightarrow> if timeStamp = 0 then Inr s else Inl TypeError
           | None \<Rightarrow> if cache s nm = Some Sync then Inr s else Inl TypeError)
      | Own a \<Rightarrow>
          (case resolveRefTime nm event a s of
             Inl e \<Rightarrow> Inl e
           | Inr (None, s1) \<Rightarrow> Inr s1
           | Inr (Some currentRef, s1) \<Rightarrow>
               if currentRef = 0 then Inr s1
               else (case markTime nm currentRef (perfNow - currentRef) s1 of
                       Inl e \<Rightarrow> Inl e
                     | Inr s2 \<Rightarrow>
                         let s3 = (if event = None \<and> cache s nm = Some Sync
                                   then s2\<lparr>objects := (objects s2)
                                             (a := (objects s2 a)\<lparr>currentRefTime := Num 0\<rparr>)\<rparr>
                                   else s2)
                         in retainOrPurge nm a s3)))"

subsection \<open>\<^verbatim>\<open>getStageArena\<close>\<close>

definition getStageArena :: "PerformanceArena \<Rightarrow> StageNameType \<Rightarrow> addr lookup" where
  "getStageArena s nm = getProp (records s) nm"

text \<open>The contents of the live record of a stage, for stating what an operation did.\<close>

definition stageData :: "PerformanceArena \<Rightarrow> StageNameType \<Rightarrow> StagePerfDataV option" where
  "stageData s nm = map_option (JSON_stringify s) (records s nm)"

section \<open>Running the operations one after the other\<close>

text \<open>
  A thrown error ends the run, as the exception would.  \<open>observe\<close> reads the data of one
  stage at the end of a run.
\<close>

definition andThen :: "error + 'a \<Rightarrow> ('a \<Rightarrow> error + 'b) \<Rightarrow> error + 'b" where
  "andThen x f = (case x of Inl e \<Rightarrow> Inl e | Inr v \<Rightarrow> f v)"

definition observe ::
  "StageNameType \<Rightarrow> error + PerformanceArena \<Rightarrow> error + StagePerfDataV option" where
  "observe nm x = map_sum id (\<lambda>s. stageData s nm) x"

text \<open>
  The calls an arena receives from outside: the two public methods and the two window
  events.  The listeners for the events exist only when \<^verbatim>\<open>enableLiveDebug\<close> is set
  (the constructor registers them under that condition); otherwise the event has no effect.
\<close>

datatype ArenaOp =
    StartStage StageNameType number
  | EndStage StageNameType "number option" number
  | InitPerformanceData bool
  | ResetPerformanceData

fun applyOp :: "ArenaOp \<Rightarrow> PerformanceArena \<Rightarrow> error + PerformanceArena" where
  "applyOp (StartStage nm perfNow) s = startStage nm perfNow s"
| "applyOp (EndStage nm event perfNow) s = endStage nm event perfNow s"
| "applyOp (InitPerformanceData skip) s =
     (if enableLiveDebug s then Inr (initPerformanceData skip s) else Inr s)"
| "applyOp ResetPerformanceData s =
     (if enableLiveDebug s then resetPerformanceData s else Inr s)"

fun applyOps :: "ArenaOp list \<Rightarrow> PerformanceArena \<Rightarrow> error + PerformanceArena" where
  "applyOps [] s = Inr s"
| "applyOps (x # xs) s = (case applyOp x s of Inl e \<Rightarrow> Inl e | Inr s' \<Rightarrow> applyOps xs s')"

text \<open>
  The arena a constructor call builds, and the state after a run of operations, as
  total functions (they fall back to their argument when an error is thrown): concrete
  states to evaluate the theorems at.
\<close>

definition arenaOf ::
  "Stage list \<Rightarrow> bool option \<Rightarrow> number option \<Rightarrow> bool option \<Rightarrow> bool \<Rightarrow> PerformanceArena" where
  "arenaOf stgs skipRec inMem liveDebug onPurge =
     (case constructor stgs skipRec inMem liveDebug onPurge of
        Inr s \<Rightarrow> s
      | Inl _ \<Rightarrow> emptyArena False False 1 False)"

definition after :: "ArenaOp list \<Rightarrow> PerformanceArena \<Rightarrow> PerformanceArena" where
  "after xs s = (case applyOps xs s of Inr s' \<Rightarrow> s' | Inl _ \<Rightarrow> s)"

section \<open>The invariant of the store\<close>

text \<open>
  Every state the constructor builds and the operations produce satisfies \<open>arenaInv\<close>
  (lemmas \<open>arenaInv_constructor\<close> and \<open>arenaInv_applyOp\<close>):
  the record of a registered stage and its arrays are allocated, the shape of
  \<^verbatim>\<open>currentRefTime\<close> agrees with the execution type kept in \<^verbatim>\<open>cache\<close>, two stages share
  no object, \<^verbatim>\<open>this.stages\<close> lists exactly the registered names, none of which is
  \<^verbatim>\<open>__proto__\<close>, and \<^verbatim>\<open>this.cache\<close> has an entry for exactly the registered names.
\<close>

definition typed :: "PerformanceArena \<Rightarrow> StageNameType \<Rightarrow> addr \<Rightarrow> bool" where
  "typed s nm a =
     (case currentRefTime (objects s a) of
        Num _ \<Rightarrow> cache s nm = Some Sync
      | Arr q \<Rightarrow> cache s nm = Some Async \<and> q < nextAddr s)"

definition separate :: "PerformanceArena \<Rightarrow> addr \<Rightarrow> addr \<Rightarrow> bool" where
  "separate s a b \<longleftrightarrow>
     a \<noteq> b \<and> recentCycles (objects s a) \<noteq> recentCycles (objects s b) \<and>
     (\<forall>q q'. currentRefTime (objects s a) = Arr q \<longrightarrow> currentRefTime (objects s b) = Arr q'
        \<longrightarrow> q \<noteq> q')"

definition arenaInv :: "PerformanceArena \<Rightarrow> bool" where
  "arenaInv s \<longleftrightarrow>
     (\<forall>nm a. records s nm = Some a \<longrightarrow>
        a < nextAddr s \<and> recentCycles (objects s a) < nextAddr s \<and> typed s nm a) \<and>
     (\<forall>nm nm' a b. records s nm = Some a \<longrightarrow> records s nm' = Some b \<longrightarrow> nm \<noteq> nm'
        \<longrightarrow> separate s a b) \<and>
     (\<forall>st \<in> set (stages s). name st \<noteq> ''__proto__'' \<and> records s (name st) \<noteq> None) \<and>
     (\<forall>nm. records s nm \<noteq> None \<longrightarrow> nm \<in> name ` set (stages s)) \<and>
     dom (cache s) = dom (records s)"

section \<open>The effect of an operation on the data of a stage\<close>

text \<open>
  The data of a stage are a value of type \<open>StagePerfDataV\<close>.  The functions below say
  what a call does to that value; the lemmas \<open>startStage_updates\<close> and \<open>endStage_effect\<close>
  prove that the operations on the store do exactly this, to the stage they are called
  on and to no other.

  \<^item> \<open>startV\<close>: a start overwrites the Sync slot, or appends to the Async queue.
  \<^item> \<open>pendingRef\<close>: the reference time an end works with: the event's time stamp, or
    else the Sync slot, or else the front of the Async queue (\<open>None\<close> on an empty queue).
  \<^item> \<open>completes\<close>: the end records a cycle: that reference time is present and not 0.
  \<^item> \<open>takeRef\<close>: what an end without event has done to the pending reference when it
    returns early: the front of an Async queue is gone (\<^verbatim>\<open>shift()\<close>).
  \<^item> \<open>clearRef\<close>: the pending reference after a recorded cycle: without an event the
    Sync slot is 0 and the front of the Async queue is gone; with an event it is as before.
  \<^item> \<open>addCycle\<close>: \<^verbatim>\<open>markTime\<close>, the cycle appended and the counter incremented.
  \<^item> \<open>retain\<close>: what is kept of \<^verbatim>\<open>recentCycles\<close> after the cycle was appended: in live
    debug mode the list, without its oldest entry once its length has reached
    \<^verbatim>\<open>inMemCycles\<close>; otherwise nothing (the purge).
  \<^item> \<open>freshData\<close>: the data of a stage that was just registered.
\<close>

definition startV :: "number \<Rightarrow> StagePerfDataV \<Rightarrow> StagePerfDataV" where
  "startV now v =
     v\<lparr>currentRefTimeV :=
         (case currentRefTimeV v of NumV _ \<Rightarrow> NumV now | ArrV q \<Rightarrow> ArrV (q @ [now]))\<rparr>"

definition pendingRef :: "number option \<Rightarrow> StagePerfDataV \<Rightarrow> number option" where
  "pendingRef event v =
     (case event of
        Some timeStamp \<Rightarrow> Some timeStamp
      | None \<Rightarrow>
          (case currentRefTimeV v of
             NumV n \<Rightarrow> Some n
           | ArrV q \<Rightarrow> (case q of [] \<Rightarrow> None | x # _ \<Rightarrow> Some x)))"

definition completes :: "number option \<Rightarrow> StagePerfDataV \<Rightarrow> bool" where
  "completes event v = (case pendingRef event v of Some x \<Rightarrow> x \<noteq> 0 | None \<Rightarrow> False)"

definition takeRef :: "number option \<Rightarrow> StagePerfDataV \<Rightarrow> StagePerfDataV" where
  "takeRef event v =
     (case event of
        Some _ \<Rightarrow> v
      | None \<Rightarrow>
          (case currentRefTimeV v of
             NumV _ \<Rightarrow> v
           | ArrV q \<Rightarrow> v\<lparr>currentRefTimeV := ArrV (tl q)\<rparr>))"

definition clearRef :: "number option \<Rightarrow> StagePerfDataV \<Rightarrow> StagePerfDataV" where
  "clearRef event v =
     (case event of
        Some _ \<Rightarrow> v
      | None \<Rightarrow>
          (case currentRefTimeV v of
             NumV _ \<Rightarrow> v\<lparr>currentRefTimeV := NumV 0\<rparr>
           | ArrV q \<Rightarrow> v\<lparr>currentRefTimeV := ArrV (tl q)\<rparr>))"

definition addCycle :: "number \<Rightarrow> number \<Rightarrow> StagePerfDataV \<Rightarrow> StagePerfDataV" where
  "addCycle x now v =
     v\<lparr>totalCyclesV := totalCyclesV v + 1,
       recentCyclesV := recentCyclesV v @ [\<lparr>r = x, t = now - x\<rparr>]\<rparr>"

definition retain :: "bool \<Rightarrow> number \<Rightarrow> Cycle list \<Rightarrow> Cycle list" where
  "retain live cap xs = (if live then (if real (length xs) \<ge> cap then tl xs else xs) else [])"

definition endStageV ::
  "bool \<Rightarrow> number \<Rightarrow> number option \<Rightarrow> number \<Rightarrow> StagePerfDataV \<Rightarrow> StagePerfDataV" where
  "endStageV live cap event now v =
     (case pendingRef event v of
        None \<Rightarrow> v
      | Some x \<Rightarrow>
          if x = 0 then takeRef event v
          else (addCycle x now (clearRef event v))
                 \<lparr>recentCyclesV := retain live cap (recentCyclesV v @ [\<lparr>r = x, t = now - x\<rparr>])\<rparr>)"

definition freshData :: "StageExecutionType \<Rightarrow> StagePerfDataV" where
  "freshData ty =
     \<lparr>currentRefTimeV = (if ty = Async then ArrV [] else NumV 0),
      totalCyclesV = 0, recentCyclesV = []\<rparr>"

text \<open>
  The name and the execution type \<^verbatim>\<open>initializePerformanceData\<close> reads off a stage
  descriptor, and the state it builds for one stage once it has passed the duplicate check.
\<close>

definition stageNameOf :: "Stage \<Rightarrow> StageNameType" where
  "stageNameOf stage = (case stage of StageName nm \<Rightarrow> nm | StageExtened e \<Rightarrow> name e)"

definition stageTypeOf :: "Stage \<Rightarrow> StageExecutionType" where
  "stageTypeOf stage =
     (case stage of
        StageName _ \<Rightarrow> Sync
      | StageExtened e \<Rightarrow> (case type e of None \<Rightarrow> Sync | Some x \<Rightarrow> x))"

definition registerStage ::
  "StageNameType \<Rightarrow> StageExecutionType \<Rightarrow> PerformanceArena \<Rightarrow> PerformanceArena" where
  "registerStage nm ty s =
     (let (ref, s1) = (if ty = Async
                       then (let (q, s') = newNumArray [] s in (Arr q, s'))
                       else (Num 0, s));
          (rc, s2) = newCycArray [] s1;
          (a, s3) = newObject \<lparr>currentRefTime = ref, totalCycles = 0, recentCycles = rc\<rparr> s2
      in s3\<lparr>stages := stages s3 @ [\<lparr>name = nm, type = Some ty\<rparr>],
            records := (records s3)(nm \<mapsto> a),
            cache := (cache s3)(nm \<mapsto> ty)\<rparr>)"

section \<open>Snapshots handed to the purge callback\<close>

text \<open>
  \<open>mutateSnapshot\<close> overwrites the object a reference points to, its \<^verbatim>\<open>recentCycles\<close>
  array and its \<^verbatim>\<open>currentRefTime\<close> array with arbitrary contents: whatever the receiver
  of the snapshot may do to it in place.  The snapshot is \<open>detached\<close> when no such write
  changes the data of any registered stage.
\<close>

definition mutateSnapshot ::
  "addr \<Rightarrow> StagePerfData \<Rightarrow> Cycle list \<Rightarrow> number list \<Rightarrow> PerformanceArena \<Rightarrow> PerformanceArena" where
  "mutateSnapshot snap ob cs ns s =
     s\<lparr>objects := (objects s)(snap := ob),
       cycArrays := (cycArrays s)(recentCycles (objects s snap) := cs),
       numArrays := (case currentRefTime (objects s snap) of
                       Arr q \<Rightarrow> (numArrays s)(q := ns)
                     | Num _ \<Rightarrow> numArrays s)\<rparr>"

definition detached :: "PerformanceArena \<Rightarrow> addr \<Rightarrow> bool" where
  "detached s snap \<longleftrightarrow>
     (\<forall>ob cs ns m. stageData (mutateSnapshot snap ob cs ns s) m = stageData s m)"

section \<open>Counting cycles\<close>

text \<open>
  The start/end pairs of a stage, counted on the calls alone, as the specification
  describes them.  \<open>Pending\<close> is what the specification keeps between a start and its end:
  for a Sync stage one optional slot, for an Async stage a queue.  \<open>pairCount m p xs\<close>
  runs through the calls \<open>xs\<close> and counts, for the stage \<open>m\<close> with \<open>p\<close> pending at the
  beginning: every end without event that finds a start pending (a start overwrites the
  Sync slot, so at most one pair per run of starts; an Async end takes the oldest entry),
  and every end with an event, which the code records as a cycle of its own whatever is
  pending.  \<open>idlePending\<close> is nothing pending, in the shape of the stage.  \<open>timed m x\<close>
  holds of a start on \<open>m\<close> at a clock time other than 0, of an end on \<open>m\<close> whose event,
  if any, is not stamped 0, and of every start and end on another stage.
  \<open>startCount m xs\<close> is the number of starts on \<open>m\<close> among the calls.
\<close>

datatype Pending = Slot "number option" | Queue "number list"

fun pairCount :: "StageNameType \<Rightarrow> Pending \<Rightarrow> ArenaOp list \<Rightarrow> nat" where
  "pairCount m p [] = 0"
| "pairCount m p (StartStage nm w # xs) =
     pairCount m
       (if nm = m
        then (case p of Slot _ \<Rightarrow> Slot (Some w) | Queue q \<Rightarrow> Queue (q @ [w]))
        else p) xs"
| "pairCount m p (EndStage nm event w # xs) =
     (if nm = m
      then (case event of
              Some _ \<Rightarrow> Suc (pairCount m p xs)
            | None \<Rightarrow>
                (case p of
                   Slot None \<Rightarrow> pairCount m p xs
                 | Slot (Some _) \<Rightarrow> Suc (pairCount m (Slot None) xs)
                 | Queue [] \<Rightarrow> pairCount m p xs
                 | Queue (_ # q) \<Rightarrow> Suc (pairCount m (Queue q) xs)))
      else pairCount m p xs)"
| "pairCount m p (InitPerformanceData b # xs) = pairCount m p xs"
| "pairCount m p (ResetPerformanceData # xs) = pairCount m p xs"

definition idlePending :: "StagePerfDataV \<Rightarrow> Pending" where
  "idlePending v = (case currentRefTimeV v of NumV _ \<Rightarrow> Slot None | ArrV _ \<Rightarrow> Queue [])"

fun timed :: "StageNameType \<Rightarrow> ArenaOp \<Rightarrow> bool" where
  "timed m (StartStage nm w) = (nm \<noteq> m \<or> w \<noteq> 0)"
| "timed m (EndStage nm event w) = (nm \<noteq> m \<or> event \<noteq> Some 0)"
| "timed m (InitPerformanceData b) = False"
| "timed m ResetPerformanceData = False"

fun startCount :: "StageNameType \<Rightarrow> ArenaOp list \<Rightarrow> nat" where
  "startCount m [] = 0"
| "startCount m (StartStage nm w # xs) = (if nm = m then Suc (startCount m xs) else startCount m xs)"
| "startCount m (EndStage nm event w # xs) = startCount m xs"
| "startCount m (InitPerformanceData b # xs) = startCount m xs"
| "startCount m (ResetPerformanceData # xs) = startCount m xs"

text \<open>\<open>tracks p c\<close>: the value \<open>c\<close> of \<^verbatim>\<open>currentRefTime\<close> holds exactly what is pending in
  \<open>p\<close>, none of it being the time 0.\<close>

fun tracks :: "Pending \<Rightarrow> RefTimeV \<Rightarrow> bool" where
  "tracks (Slot None) (NumV n) = (n = 0)"
| "tracks (Slot (Some w)) (NumV n) = (n = w \<and> w \<noteq> 0)"
| "tracks (Queue q) (ArrV q') = (q' = q \<and> 0 \<notin> set q)"
| "tracks (Slot _) (ArrV _) = False"
| "tracks (Queue _) (NumV _) = False"

text \<open>
  Bookkeeping for the proofs, read off the state and not off the calls:
  \<open>recordedBy m x s\<close> is 1 when the operation \<open>x\<close>, applied in state \<open>s\<close>, is an
  \<^verbatim>\<open>endStage\<close> on \<open>m\<close> that passes the code's own test for recording (recording enabled,
  resolved reference time present and not 0), and 0 otherwise; \<open>recordedCount\<close> adds this
  up along a run.  \<open>deliveries m s\<close> is the number of times the purge callback has been
  invoked for \<open>m\<close>.
\<close>

definition recordedBy :: "StageNameType \<Rightarrow> ArenaOp \<Rightarrow> PerformanceArena \<Rightarrow> nat" where
  "recordedBy m x s =
     (case x of
        EndStage nm event perfNow \<Rightarrow>
          (if nm = m \<and> \<not> skipRecording s \<and>
              (case stageData s m of Some v \<Rightarrow> completes event v | None \<Rightarrow> False)
           then 1 else 0)
      | _ \<Rightarrow> 0)"

fun recordedCount :: "StageNameType \<Rightarrow> ArenaOp list \<Rightarrow> PerformanceArena \<Rightarrow> nat" where
  "recordedCount m [] s = 0"
| "recordedCount m (x # xs) s =
     recordedBy m x s +
     (case applyOp x s of Inl _ \<Rightarrow> 0 | Inr s' \<Rightarrow> recordedCount m xs s')"

definition deliveries :: "StageNameType \<Rightarrow> PerformanceArena \<Rightarrow> nat" where
  "deliveries m s = length (filter (\<lambda>c. fst c = m) (purgeCalls s))"

section \<open>The first-in first-out pairing of the specification\<close>

text \<open>
  The pairing the specification describes for an Async stage, on its own: a start puts
  its time stamp at the back of the queue, an end takes the oldest one, if there is one,
  and yields the cycle from it.  The result is the queue left over and the cycles in the
  order of completion.  A plain operation on a stage is a start at a clock time other
  than 0, or an end without an event.
\<close>

fun specFifo :: "number list \<Rightarrow> ArenaOp list \<Rightarrow> number list \<times> Cycle list" where
  "specFifo q [] = (q, [])"
| "specFifo q (StartStage nm w # xs) = specFifo (q @ [w]) xs"
| "specFifo q (EndStage nm event w # xs) =
     (case q of
        [] \<Rightarrow> specFifo [] xs
      | x # rest \<Rightarrow> (case specFifo rest xs of (q', cs) \<Rightarrow> (q', \<lparr>r = x, t = w - x\<rparr> # cs)))"
| "specFifo q (InitPerformanceData b # xs) = specFifo q xs"
| "specFifo q (ResetPerformanceData # xs) = specFifo q xs"

fun plainOn :: "StageNameType \<Rightarrow> ArenaOp \<Rightarrow> bool" where
  "plainOn nm (StartStage m w) = (m = nm \<and> w \<noteq> 0)"
| "plainOn nm (EndStage m event w) = (m = nm \<and> event = None)"
| "plainOn nm (InitPerformanceData b) = False"
| "plainOn nm ResetPerformanceData = False"

section \<open>Frames\<close>

text \<open>
  Bookkeeping for the proofs: which fields two states share, which heap cells a step may
  have written, and \<open>updates nm f s s'\<close>: the step from \<open>s\<close> to \<open>s'\<close> keeps the invariant
  and the configuration, applies \<open>f\<close> to the data of stage \<open>nm\<close> and leaves the data of
  every other stage alone.
\<close>

definition sameConfig :: "PerformanceArena \<Rightarrow> PerformanceArena \<Rightarrow> bool" where
  "sameConfig s s' \<longleftrightarrow>
     stages s' = stages s \<and> records s' = records s \<and> cache s' = cache s \<and>
     skipRecording s' = skipRecording s \<and> enableLiveDebug s' = enableLiveDebug s \<and>
     inMemCycles s' = inMemCycles s \<and> onPurgeCallback s' = onPurgeCallback s"

definition sameFlags :: "PerformanceArena \<Rightarrow> PerformanceArena \<Rightarrow> bool" where
  "sameFlags s s' \<longleftrightarrow>
     skipRecording s' = skipRecording s \<and> enableLiveDebug s' = enableLiveDebug s \<and>
     inMemCycles s' = inMemCycles s \<and> onPurgeCallback s' = onPurgeCallback s \<and>
     purgeCalls s' = purgeCalls s"

definition onlyTouches :: "PerformanceArena \<Rightarrow> addr \<Rightarrow> PerformanceArena \<Rightarrow> bool" where
  "onlyTouches s a s' \<longleftrightarrow>
     (\<forall>b. b \<noteq> a \<longrightarrow> b < nextAddr s \<longrightarrow> objects s' b = objects s b) \<and>
     (\<forall>x. x < nextAddr s \<longrightarrow> x \<noteq> recentCycles (objects s a) \<longrightarrow> cycArrays s' x = cycArrays s x) \<and>
     (\<forall>x. x < nextAddr s \<longrightarrow> currentRefTime (objects s a) \<noteq> Arr x \<longrightarrow>
          numArrays s' x = numArrays s x)"

definition sameShape :: "PerformanceArena \<Rightarrow> addr \<Rightarrow> PerformanceArena \<Rightarrow> bool" where
  "sameShape s a s' \<longleftrightarrow>
     nextAddr s \<le> nextAddr s' \<and>
     recentCycles (objects s' a) < nextAddr s' \<and>
     (recentCycles (objects s' a) = recentCycles (objects s a) \<or>
      nextAddr s \<le> recentCycles (objects s' a)) \<and>
     (case currentRefTime (objects s a) of
        Num _ \<Rightarrow> (\<exists>n. currentRefTime (objects s' a) = Num n)
      | Arr q \<Rightarrow> currentRefTime (objects s' a) = Arr q)"

definition updates ::
  "StageNameType \<Rightarrow> (StagePerfDataV \<Rightarrow> StagePerfDataV) \<Rightarrow> PerformanceArena \<Rightarrow> PerformanceArena
     \<Rightarrow> bool" where
  "updates nm f s s' \<longleftrightarrow>
     arenaInv s' \<and> sameConfig s s' \<and> nextAddr s \<le> nextAddr s' \<and>
     stageData s' nm = map_option f (stageData s nm) \<and>
     (\<forall>m. m \<noteq> nm \<longrightarrow> stageData s' m = stageData s m)"

section \<open>Evaluating concrete runs\<close>

lemma andThen_simps [simp]: "andThen (Inl e) f = Inl e" "andThen (Inr v) f = f v"
  by (simp_all add: andThen_def)

lemmas run_defs = constructor_def emptyArena_def initializeStage_def getProp_def
  objectPrototypeKeys_def newObject_def newNumArray_def newCycArray_def startStage_def
  endStage_def resolveRefTime_def markTime_def retainOrPurge_def purgeArena_def
  JSON_parse_def JSON_stringify_def stageData_def observe_def getStageArena_def

section \<open>Facts about the store\<close>
subsection \<open>Allocation by \<^verbatim>\<open>JSON.parse\<close>\<close>

lemma JSON_parse_frame:
  assumes "JSON_parse v s = (snap, s')"
  shows "nextAddr s \<le> snap" "snap < nextAddr s'" "nextAddr s \<le> nextAddr s'"
    "nextAddr s \<le> recentCycles (objects s' snap)"
    "\<And>q. currentRefTime (objects s' snap) = Arr q \<Longrightarrow> nextAddr s \<le> q"
    "\<And>x. x < nextAddr s \<Longrightarrow> objects s' x = objects s x"
    "\<And>x. x < nextAddr s \<Longrightarrow> numArrays s' x = numArrays s x"
    "\<And>x. x < nextAddr s \<Longrightarrow> cycArrays s' x = cycArrays s x"
    "JSON_stringify s' snap = v"
    "sameConfig s s'" "purgeCalls s' = purgeCalls s"
  using assms
  by (auto simp: JSON_parse_def newObject_def newNumArray_def newCycArray_def JSON_stringify_def
      sameConfig_def split: RefTimeV.splits prod.splits)

subsection \<open>Reading and establishing the invariant\<close>

lemma arenaInv_rec:
  assumes "arenaInv s" "records s nm = Some a"
  shows "a < nextAddr s" "recentCycles (objects s a) < nextAddr s" "typed s nm a"
  using assms by (auto simp: arenaInv_def)

lemma arenaInv_sync:
  assumes "arenaInv s" "records s nm = Some a" "currentRefTime (objects s a) = Num n"
  shows "cache s nm = Some Sync"
  using arenaInv_rec(3)[OF assms(1,2)] assms(3) by (simp add: typed_def)

lemma arenaInv_async:
  assumes "arenaInv s" "records s nm = Some a" "currentRefTime (objects s a) = Arr q"
  shows "cache s nm = Some Async" "q < nextAddr s"
  using arenaInv_rec(3)[OF assms(1,2)] assms(3) by (simp_all add: typed_def)

lemma arenaInv_sep:
  assumes "arenaInv s" "records s nm = Some a" "records s m = Some b" "nm \<noteq> m"
  shows "a \<noteq> b" "recentCycles (objects s a) \<noteq> recentCycles (objects s b)"
    "\<And>q q'. currentRefTime (objects s a) = Arr q \<Longrightarrow> currentRefTime (objects s b) = Arr q'
        \<Longrightarrow> q \<noteq> q'"
proof -
  have "separate s a b" using assms unfolding arenaInv_def by blast
  then show "a \<noteq> b" "recentCycles (objects s a) \<noteq> recentCycles (objects s b)"
    "\<And>q q'. currentRefTime (objects s a) = Arr q \<Longrightarrow> currentRefTime (objects s b) = Arr q'
        \<Longrightarrow> q \<noteq> q'"
    by (auto simp: separate_def)
qed

lemma arenaInvI:
  assumes "\<And>nm a. records s nm = Some a \<Longrightarrow>
             a < nextAddr s \<and> recentCycles (objects s a) < nextAddr s \<and> typed s nm a"
    and "\<And>nm m a b. records s nm = Some a \<Longrightarrow> records s m = Some b \<Longrightarrow> nm \<noteq> m \<Longrightarrow>
             separate s a b"
    and "\<And>st. st \<in> set (stages s) \<Longrightarrow> name st \<noteq> ''__proto__'' \<and> records s (name st) \<noteq> None"
    and "\<And>nm. records s nm \<noteq> None \<Longrightarrow> nm \<in> name ` set (stages s)"
    and "dom (cache s) = dom (records s)"
  shows "arenaInv s"
  unfolding arenaInv_def using assms by blast

lemma arenaInv_stages:
  assumes "arenaInv s"
  shows "\<And>st. st \<in> set (stages s) \<Longrightarrow> name st \<noteq> ''__proto__'' \<and> records s (name st) \<noteq> None"
    "\<And>nm. records s nm \<noteq> None \<Longrightarrow> nm \<in> name ` set (stages s)"
    "dom (cache s) = dom (records s)"
  using assms unfolding arenaInv_def by blast+

text \<open>A change to the heaps that keeps the shape of every live record keeps the invariant.\<close>

lemma arenaInv_same_shape:
  assumes inv: "arenaInv s"
    and cfg: "stages s' = stages s" "records s' = records s" "cache s' = cache s"
    and nxt: "nextAddr s \<le> nextAddr s'"
    and shape: "\<And>nm a. records s nm = Some a \<Longrightarrow>
        recentCycles (objects s' a) = recentCycles (objects s a) \<and>
        (case currentRefTime (objects s a) of
           Num _ \<Rightarrow> (\<exists>n. currentRefTime (objects s' a) = Num n)
         | Arr q \<Rightarrow> currentRefTime (objects s' a) = Arr q)"
  shows "arenaInv s'"
proof (rule arenaInvI)
  fix nm a assume r: "records s' nm = Some a"
  then have r0: "records s nm = Some a" by (simp add: cfg)
  from shape[OF r0] arenaInv_rec[OF inv r0] nxt
  show "a < nextAddr s' \<and> recentCycles (objects s' a) < nextAddr s' \<and> typed s' nm a"
    by (auto simp: typed_def cfg split: RefTime.splits)
next
  fix nm m a b assume r: "records s' nm = Some a" "records s' m = Some b" "nm \<noteq> m"
  then have r0: "records s nm = Some a" "records s m = Some b" by (simp_all add: cfg)
  from shape[OF r0(1)] shape[OF r0(2)] arenaInv_sep[OF inv r0 r(3)]
  show "separate s' a b"
    by (auto simp: separate_def split: RefTime.splits)
next
  fix st assume "st \<in> set (stages s')"
  then show "name st \<noteq> ''__proto__'' \<and> records s' (name st) \<noteq> None"
    using arenaInv_stages(1)[OF inv] by (simp add: cfg)
next
  fix nm assume "records s' nm \<noteq> None"
  then show "nm \<in> name ` set (stages s')"
    using arenaInv_stages(2)[OF inv] by (simp add: cfg)
next
  show "dom (cache s') = dom (records s')"
    using arenaInv_stages(3)[OF inv] by (simp add: cfg)
qed

subsection \<open>Steps that write to the record of one stage\<close>

lemma stageData_cong:
  assumes "records s' nm = records s nm"
    and "\<And>a. records s nm = Some a \<Longrightarrow> objects s' a = objects s a"
    and "\<And>a. records s nm = Some a \<Longrightarrow>
           cycArrays s' (recentCycles (objects s a)) = cycArrays s (recentCycles (objects s a))"
    and "\<And>a q. records s nm = Some a \<Longrightarrow> currentRefTime (objects s a) = Arr q \<Longrightarrow>
           numArrays s' q = numArrays s q"
  shows "stageData s' nm = stageData s nm"
  using assms
  by (cases "records s nm") (auto simp: stageData_def JSON_stringify_def split: RefTime.splits)

lemma startStage_effect:
  assumes inv: "arenaInv s" and rec: "records s nm = Some a" and on: "\<not> skipRecording s"
  shows "\<exists>s'. startStage nm now s = Inr s' \<and> arenaInv s' \<and> sameConfig s s' \<and>
           purgeCalls s' = purgeCalls s \<and> nextAddr s' = nextAddr s \<and>
           stageData s' nm = map_option (startV now) (stageData s nm) \<and>
           (\<forall>m. m \<noteq> nm \<longrightarrow> stageData s' m = stageData s m)"
proof (cases "currentRefTime (objects s a)")
  case (Num n)
  have sy: "cache s nm = Some Sync" by (rule arenaInv_sync[OF inv rec Num])
  let ?s' = "s\<lparr>objects := (objects s)(a := (objects s a)\<lparr>currentRefTime := Num now\<rparr>)\<rparr>"
  have 1: "startStage nm now s = Inr ?s'"
    using rec on sy by (simp add: startStage_def getProp_def)
  have 2: "arenaInv ?s'"
    by (rule arenaInv_same_shape[OF inv]) (use rec Num in \<open>auto split: RefTime.splits\<close>)
  have 3: "stageData ?s' nm = map_option (startV now) (stageData s nm)"
    using rec Num by (simp add: stageData_def JSON_stringify_def startV_def)
  have 4: "\<forall>m. m \<noteq> nm \<longrightarrow> stageData ?s' m = stageData s m"
  proof (intro allI impI)
    fix m assume "m \<noteq> nm"
    show "stageData ?s' m = stageData s m"
    proof (rule stageData_cong)
      fix b assume "records s m = Some b"
      with arenaInv_sep(1)[OF inv rec _ ] \<open>m \<noteq> nm\<close> have "b \<noteq> a" by blast
      then show "objects ?s' b = objects s b" by simp
    qed simp_all
  qed
  show ?thesis using 1 2 3 4 by (simp add: sameConfig_def)
next
  case (Arr q)
  have sy: "cache s nm = Some Async" by (rule arenaInv_async(1)[OF inv rec Arr])
  let ?s' = "s\<lparr>numArrays := (numArrays s)(q := numArrays s q @ [now])\<rparr>"
  have 1: "startStage nm now s = Inr ?s'"
    using rec on sy Arr by (simp add: startStage_def getProp_def)
  have 2: "arenaInv ?s'"
    by (rule arenaInv_same_shape[OF inv]) (auto split: RefTime.splits)
  have 3: "stageData ?s' nm = map_option (startV now) (stageData s nm)"
    using rec Arr by (simp add: stageData_def JSON_stringify_def startV_def)
  have 4: "\<forall>m. m \<noteq> nm \<longrightarrow> stageData ?s' m = stageData s m"
  proof (intro allI impI)
    fix m assume "m \<noteq> nm"
    show "stageData ?s' m = stageData s m"
    proof (rule stageData_cong)
      fix b q' assume "records s m = Some b" "currentRefTime (objects s b) = Arr q'"
      with arenaInv_sep(3)[OF inv rec _ _ Arr] \<open>m \<noteq> nm\<close> have "q' \<noteq> q" by blast
      then show "numArrays ?s' q' = numArrays s q'" by simp
    qed simp_all
  qed
  show ?thesis using 1 2 3 4 by (simp add: sameConfig_def)
qed

lemma local_change:
  assumes inv: "arenaInv s" and rec: "records s nm = Some a"
    and cfg: "sameConfig s s'" and touch: "onlyTouches s a s'" and shape: "sameShape s a s'"
  shows "arenaInv s'" and "\<forall>m. m \<noteq> nm \<longrightarrow> stageData s' m = stageData s m"
proof -
  have rs: "records s' = records s" "stages s' = stages s" "cache s' = cache s"
    using cfg by (simp_all add: sameConfig_def)
  have nxt: "nextAddr s \<le> nextAddr s'" using shape by (simp add: sameShape_def)
  have other: "objects s' b = objects s b" if "records s m = Some b" "m \<noteq> nm" for m b
    using touch arenaInv_sep(1)[OF inv rec that(1)] arenaInv_rec(1)[OF inv that(1)] that(2)
    by (auto simp: onlyTouches_def)
  show "arenaInv s'"
  proof (rule arenaInvI)
    fix m b assume r: "records s' m = Some b"
    then have r0: "records s m = Some b" by (simp add: rs)
    show "b < nextAddr s' \<and> recentCycles (objects s' b) < nextAddr s' \<and> typed s' m b"
    proof (cases "m = nm")
      case True
      then have "b = a" using r0 rec by simp
      then show ?thesis
        using shape arenaInv_rec[OF inv rec] nxt True
        by (auto simp: sameShape_def typed_def rs split: RefTime.splits)
    next
      case False
      then show ?thesis
        using other[OF r0 False] arenaInv_rec[OF inv r0] nxt
        by (auto simp: typed_def rs split: RefTime.splits)
    qed
  next
    fix m m' b b' assume r: "records s' m = Some b" "records s' m' = Some b'" "m \<noteq> m'"
    then have r0: "records s m = Some b" "records s m' = Some b'" by (simp_all add: rs)
    have sep0: "separate s b b'"
      using arenaInv_sep[OF inv r0 r(3)] by (auto simp: separate_def)
    show "separate s' b b'"
    proof (cases "m = nm")
      case True
      then have ba: "b = a" using r0 rec by simp
      have o: "objects s' b' = objects s b'" using other[OF r0(2)] r(3) True by simp
      show ?thesis
        using sep0 shape arenaInv_rec[OF inv r0(2)] o unfolding ba
        by (auto simp: separate_def sameShape_def split: RefTime.splits)
    next
      case False
      have o: "objects s' b = objects s b" using other[OF r0(1) False] .
      show ?thesis
      proof (cases "m' = nm")
        case True
        then have ba: "b' = a" using r0 rec by simp
        show ?thesis
          using sep0 shape arenaInv_rec[OF inv r0(1)] o unfolding ba
          by (auto simp: separate_def sameShape_def split: RefTime.splits)
      next
        case F2: False
        have o': "objects s' b' = objects s b'" using other[OF r0(2) F2] .
        show ?thesis using sep0 o o' by (simp add: separate_def)
      qed
    qed
  next
    fix st assume "st \<in> set (stages s')"
    then show "name st \<noteq> ''__proto__'' \<and> records s' (name st) \<noteq> None"
      using arenaInv_stages(1)[OF inv] by (simp add: rs)
  next
    fix m assume "records s' m \<noteq> None"
    then show "m \<in> name ` set (stages s')"
      using arenaInv_stages(2)[OF inv] by (simp add: rs)
  next
    show "dom (cache s') = dom (records s')"
      using arenaInv_stages(3)[OF inv] by (simp add: rs)
  qed
  show "\<forall>m. m \<noteq> nm \<longrightarrow> stageData s' m = stageData s m"
  proof (intro allI impI)
    fix m assume ne: "m \<noteq> nm"
    show "stageData s' m = stageData s m"
    proof (rule stageData_cong)
      show "records s' m = records s m" by (simp add: rs)
    next
      fix b assume r0: "records s m = Some b"
      show "objects s' b = objects s b" using other[OF r0 ne] .
      show "cycArrays s' (recentCycles (objects s b)) = cycArrays s (recentCycles (objects s b))"
        using touch arenaInv_rec(2)[OF inv r0] arenaInv_sep(2)[OF inv rec r0] ne
        by (auto simp: onlyTouches_def)
    next
      fix b q assume r0: "records s m = Some b" and q: "currentRefTime (objects s b) = Arr q"
      have "q < nextAddr s" using arenaInv_async(2)[OF inv r0 q] .
      moreover have "currentRefTime (objects s a) \<noteq> Arr q"
        using arenaInv_sep(3)[OF inv rec r0 _ _ q] ne by blast
      ultimately show "numArrays s' q = numArrays s q"
        using touch by (auto simp: onlyTouches_def)
    qed
  qed
qed

lemma updatesI:
  assumes "arenaInv s" "records s nm = Some a" "sameConfig s s'" "onlyTouches s a s'"
    "sameShape s a s'" "JSON_stringify s' a = f (JSON_stringify s a)"
  shows "updates nm f s s'"
  using local_change[OF assms(1-5)] assms(2,3,5,6)
  by (simp add: updates_def stageData_def sameConfig_def sameShape_def)

lemma updates_trans:
  assumes "updates nm f s s1" "updates nm g s1 s2"
  shows "updates nm (\<lambda>v. g (f v)) s s2"
  using assms by (auto simp: updates_def sameConfig_def option.map_comp comp_def)

lemma updates_refl: "arenaInv s \<Longrightarrow> updates nm (\<lambda>v. v) s s"
  by (simp add: updates_def sameConfig_def option.map_ident)

lemma updates_cong:
  assumes "updates nm f s s'" "\<And>v. stageData s nm = Some v \<Longrightarrow> f v = g v"
  shows "updates nm g s s'"
  using assms by (cases "stageData s nm") (auto simp: updates_def)

lemma JSON_parse_frame2:
  assumes "JSON_parse v s = (snap, s')"
  shows "recentCycles (objects s' snap) < nextAddr s'"
    "\<And>q. currentRefTime (objects s' snap) = Arr q \<Longrightarrow> q < nextAddr s'"
  using assms
  by (auto simp: JSON_parse_def newObject_def newNumArray_def newCycArray_def
      split: RefTimeV.splits prod.splits)

lemma detachedI:
  assumes "\<And>m b. records s m = Some b \<Longrightarrow>
     b \<noteq> snap \<and> recentCycles (objects s b) \<noteq> recentCycles (objects s snap) \<and>
     (\<forall>q. currentRefTime (objects s b) = Arr q \<longrightarrow> currentRefTime (objects s snap) \<noteq> Arr q)"
  shows "detached s snap"
  unfolding detached_def
proof (intro allI)
  fix ob cs ns m
  show "stageData (mutateSnapshot snap ob cs ns s) m = stageData s m"
    by (rule stageData_cong)
      (use assms in \<open>auto simp: mutateSnapshot_def split: RefTime.splits\<close>)
qed

subsection \<open>\<^verbatim>\<open>markTime\<close>, \<^verbatim>\<open>endStage\<close> and the purge\<close>

lemma markTime_effect:
  assumes inv: "arenaInv s" and rec: "records s nm = Some a"
  shows "\<exists>s'. markTime nm x y s = Inr s' \<and>
           updates nm (\<lambda>v. v\<lparr>totalCyclesV := totalCyclesV v + 1,
                               recentCyclesV := recentCyclesV v @ [\<lparr>r = x, t = y\<rparr>]\<rparr>) s s' \<and>
           purgeCalls s' = purgeCalls s \<and> nextAddr s' = nextAddr s"
proof -
  let ?rc = "recentCycles (objects s a)"
  let ?s1 = "s\<lparr>cycArrays := (cycArrays s)(?rc := cycArrays s ?rc @ [\<lparr>r = x, t = y\<rparr>])\<rparr>"
  let ?s' = "?s1\<lparr>objects := (objects ?s1)
               (a := (objects ?s1 a)\<lparr>totalCycles := totalCycles (objects ?s1 a) + 1\<rparr>)\<rparr>"
  have 1: "markTime nm x y s = Inr ?s'"
    using rec by (simp add: markTime_def getProp_def Let_def)
  have 2: "updates nm (\<lambda>v. v\<lparr>totalCyclesV := totalCyclesV v + 1,
                               recentCyclesV := recentCyclesV v @ [\<lparr>r = x, t = y\<rparr>]\<rparr>) s ?s'"
    by (rule updatesI[OF inv rec])
      (use arenaInv_rec[OF inv rec] in
        \<open>auto simp: sameConfig_def onlyTouches_def sameShape_def JSON_stringify_def
           split: RefTime.splits\<close>)
  show ?thesis using 1 2 by simp
qed

lemma endStage_recorded:
  assumes inv: "arenaInv s" and rec: "records s nm = Some a" and on: "\<not> skipRecording s"
    and pend: "pendingRef event (JSON_stringify s a) = Some x" and nz: "x \<noteq> 0"
  shows "\<exists>s3. endStage nm event now s = retainOrPurge nm a s3 \<and>
           updates nm (\<lambda>v. addCycle x now (clearRef event v)) s s3 \<and>
           purgeCalls s3 = purgeCalls s"
proof (cases event)
  case (Some ts)
  then have x: "x = ts" using pend by (simp add: pendingRef_def)
  obtain s2 where m: "markTime nm ts (now - ts) s = Inr s2"
    and u: "updates nm (\<lambda>v. v\<lparr>totalCyclesV := totalCyclesV v + 1,
                  recentCyclesV := recentCyclesV v @ [\<lparr>r = ts, t = now - ts\<rparr>]\<rparr>) s s2"
    and p: "purgeCalls s2 = purgeCalls s"
    using markTime_effect[OF inv rec] by blast
  have "endStage nm event now s = retainOrPurge nm a s2"
    using rec on Some nz x m by (simp add: endStage_def getProp_def resolveRefTime_def)
  moreover have "updates nm (\<lambda>v. addCycle x now (clearRef event v)) s s2"
    by (rule updates_cong[OF u]) (simp add: addCycle_def clearRef_def Some x)
  ultimately show ?thesis using p by blast
next
  case None
  show ?thesis
  proof (cases "currentRefTime (objects s a)")
    case (Num n)
    have sy: "cache s nm = Some Sync" by (rule arenaInv_sync[OF inv rec Num])
    have x: "x = n" using pend None Num by (simp add: pendingRef_def JSON_stringify_def)
    obtain s2 where m: "markTime nm n (now - n) s = Inr s2"
      and u: "updates nm (\<lambda>v. v\<lparr>totalCyclesV := totalCyclesV v + 1,
                    recentCyclesV := recentCyclesV v @ [\<lparr>r = n, t = now - n\<rparr>]\<rparr>) s s2"
      and p: "purgeCalls s2 = purgeCalls s"
      using markTime_effect[OF inv rec] by blast
    let ?s3 = "s2\<lparr>objects := (objects s2)(a := (objects s2 a)\<lparr>currentRefTime := Num 0\<rparr>)\<rparr>"
    have inv2: "arenaInv s2" and rec2: "records s2 nm = Some a"
      using u rec by (simp_all add: updates_def sameConfig_def)
    have 1: "endStage nm event now s = retainOrPurge nm a ?s3"
      using rec on None Num sy nz x m
      by (simp add: endStage_def getProp_def resolveRefTime_def)
    have sd2: "stageData s2 nm = Some ((JSON_stringify s a)\<lparr>totalCyclesV :=
                 totalCyclesV (JSON_stringify s a) + 1,
                 recentCyclesV := recentCyclesV (JSON_stringify s a) @ [\<lparr>r = n, t = now - n\<rparr>]\<rparr>)"
      using u rec by (simp add: updates_def stageData_def)
    then have num2: "\<exists>k. currentRefTime (objects s2 a) = Num k"
      using rec2 Num
      by (cases "currentRefTime (objects s2 a)")
        (auto simp: stageData_def JSON_stringify_def)
    have 2: "updates nm (\<lambda>v. v\<lparr>currentRefTimeV := NumV 0\<rparr>) s2 ?s3"
      by (rule updatesI[OF inv2 rec2])
        (use arenaInv_rec[OF inv2 rec2] num2 in
          \<open>auto simp: sameConfig_def onlyTouches_def sameShape_def JSON_stringify_def
             split: RefTime.splits\<close>)
    have 3: "updates nm (\<lambda>v. addCycle x now (clearRef event v)) s ?s3"
      by (rule updates_cong[OF updates_trans[OF u 2]])
        (use rec Num in \<open>auto simp: addCycle_def clearRef_def None x stageData_def
           JSON_stringify_def\<close>)
    show ?thesis using 1 3 p by auto
  next
    case (Arr q)
    have asy: "cache s nm = Some Async" by (rule arenaInv_async(1)[OF inv rec Arr])
    obtain xs where q: "numArrays s q = x # xs"
      using pend None Arr by (auto simp: pendingRef_def JSON_stringify_def split: list.splits)
    let ?s1 = "s\<lparr>numArrays := (numArrays s)(q := xs)\<rparr>"
    have u1: "updates nm (\<lambda>v. v\<lparr>currentRefTimeV := ArrV xs\<rparr>) s ?s1"
      by (rule updatesI[OF inv rec])
        (use arenaInv_rec[OF inv rec] Arr in
          \<open>auto simp: sameConfig_def onlyTouches_def sameShape_def JSON_stringify_def
             split: RefTime.splits\<close>)
    have inv1: "arenaInv ?s1" and rec1: "records ?s1 nm = Some a"
      using u1 rec by (simp_all add: updates_def)
    obtain s2 where m: "markTime nm x (now - x) ?s1 = Inr s2"
      and u: "updates nm (\<lambda>v. v\<lparr>totalCyclesV := totalCyclesV v + 1,
                    recentCyclesV := recentCyclesV v @ [\<lparr>r = x, t = now - x\<rparr>]\<rparr>) ?s1 s2"
      and p: "purgeCalls s2 = purgeCalls ?s1"
      using markTime_effect[OF inv1 rec1] by blast
    have 1: "endStage nm event now s = retainOrPurge nm a s2"
      using rec on None Arr asy nz q m
      by (simp add: endStage_def getProp_def resolveRefTime_def)
    have 3: "updates nm (\<lambda>v. addCycle x now (clearRef event v)) s s2"
      by (rule updates_cong[OF updates_trans[OF u1 u]])
        (use rec Arr q in \<open>auto simp: addCycle_def clearRef_def None stageData_def
           JSON_stringify_def\<close>)
    show ?thesis using 1 3 p by auto
  qed
qed

lemma endStage_idle:
  assumes inv: "arenaInv s" and rec: "records s nm = Some a" and on: "\<not> skipRecording s"
    and pend: "pendingRef event (JSON_stringify s a) = None \<or>
               pendingRef event (JSON_stringify s a) = Some 0"
  shows "\<exists>s'. endStage nm event now s = Inr s' \<and> updates nm (takeRef event) s s' \<and>
           purgeCalls s' = purgeCalls s"
proof (cases event)
  case (Some ts)
  then have "ts = 0" using pend by (simp add: pendingRef_def)
  then have "endStage nm event now s = Inr s"
    using rec on Some by (simp add: endStage_def getProp_def resolveRefTime_def)
  moreover have "updates nm (takeRef event) s s"
    by (rule updates_cong[OF updates_refl[OF inv]]) (simp add: takeRef_def Some)
  ultimately show ?thesis by simp
next
  case None
  show ?thesis
  proof (cases "currentRefTime (objects s a)")
    case (Num n)
    have sy: "cache s nm = Some Sync" by (rule arenaInv_sync[OF inv rec Num])
    have "n = 0" using pend None Num by (simp add: pendingRef_def JSON_stringify_def)
    then have "endStage nm event now s = Inr s"
      using rec on None Num sy by (simp add: endStage_def getProp_def resolveRefTime_def)
    moreover have "updates nm (takeRef event) s s"
      by (rule updates_cong[OF updates_refl[OF inv]])
        (use rec Num in \<open>auto simp: takeRef_def None stageData_def JSON_stringify_def\<close>)
    ultimately show ?thesis by simp
  next
    case (Arr q)
    have asy: "cache s nm = Some Async" by (rule arenaInv_async(1)[OF inv rec Arr])
    let ?s1 = "s\<lparr>numArrays := (numArrays s)(q := tl (numArrays s q))\<rparr>"
    have u1: "updates nm (takeRef event) s ?s1"
      by (rule updatesI[OF inv rec])
        (use arenaInv_rec[OF inv rec] Arr in
          \<open>auto simp: sameConfig_def onlyTouches_def sameShape_def JSON_stringify_def
             takeRef_def None split: RefTime.splits\<close>)
    show ?thesis
    proof (cases "numArrays s q")
      case Nil
      then have "(numArrays s)(q := tl (numArrays s q)) = numArrays s"
        by (simp add: fun_upd_idem)
      then have same: "?s1 = s" by simp
      have "endStage nm event now s = Inr s"
        using rec on None Arr asy Nil by (simp add: endStage_def getProp_def resolveRefTime_def)
      then show ?thesis using u1 unfolding same by simp
    next
      case (Cons y ys)
      then have "y = 0" using pend None Arr by (simp add: pendingRef_def JSON_stringify_def)
      then have "endStage nm event now s = Inr ?s1"
        using rec on None Arr asy Cons
        by (simp add: endStage_def getProp_def resolveRefTime_def)
      then show ?thesis using u1 by simp
    qed
  qed
qed

lemma retain_live_effect:
  assumes inv: "arenaInv s" and rec: "records s nm = Some a" and live: "enableLiveDebug s"
  shows "\<exists>s'. retainOrPurge nm a s = Inr s' \<and>
           updates nm (\<lambda>v. v\<lparr>recentCyclesV := retain True (inMemCycles s) (recentCyclesV v)\<rparr>) s s' \<and>
           purgeCalls s' = purgeCalls s"
proof -
  let ?rc = "recentCycles (objects s a)"
  let ?s' = "s\<lparr>cycArrays := (cycArrays s)(?rc := retain True (inMemCycles s) (cycArrays s ?rc))\<rparr>"
  have "(cycArrays s)(?rc := cycArrays s ?rc) = cycArrays s" by (simp add: fun_upd_idem)
  then have same: "s\<lparr>cycArrays := (cycArrays s)(?rc := cycArrays s ?rc)\<rparr> = s" by simp
  have 1: "retainOrPurge nm a s = Inr ?s'"
    using live same by (simp add: retainOrPurge_def retain_def Let_def)
  have 2: "updates nm (\<lambda>v. v\<lparr>recentCyclesV := retain True (inMemCycles s) (recentCyclesV v)\<rparr>) s ?s'"
    by (rule updatesI[OF inv rec])
      (use arenaInv_rec[OF inv rec] in
        \<open>auto simp: sameConfig_def onlyTouches_def sameShape_def JSON_stringify_def
           split: RefTime.splits\<close>)
  show ?thesis using 1 2 by simp
qed

lemma purgeArena_effect:
  assumes inv: "arenaInv s" and rec: "records s nm = Some a"
  shows "\<exists>s'. purgeArena nm s = Inr s' \<and>
           updates nm (\<lambda>v. v\<lparr>recentCyclesV := []\<rparr>) s s' \<and>
           (if onPurgeCallback s
            then \<exists>snap. purgeCalls s' = purgeCalls s @ [(nm, snap)] \<and>
                   JSON_stringify s' snap = JSON_stringify s a \<and> detached s' snap
            else purgeCalls s' = purgeCalls s)"
proof (cases "onPurgeCallback s")
  case False
  let ?s2 = "s\<lparr>cycArrays := (cycArrays s)(nextAddr s := []), nextAddr := nextAddr s + 1\<rparr>"
  let ?s' = "?s2\<lparr>objects := (objects ?s2)(a := (objects ?s2 a)\<lparr>recentCycles := nextAddr s\<rparr>)\<rparr>"
  have 1: "purgeArena nm s = Inr ?s'"
    using rec False by (simp add: purgeArena_def getProp_def newCycArray_def)
  have 2: "updates nm (\<lambda>v. v\<lparr>recentCyclesV := []\<rparr>) s ?s'"
    by (rule updatesI[OF inv rec])
      (use arenaInv_rec[OF inv rec] in
        \<open>auto simp: sameConfig_def onlyTouches_def sameShape_def JSON_stringify_def typed_def
           split: RefTime.splits\<close>)
  show ?thesis using 1 2 False by simp
next
  case True
  obtain snap s1 where jp: "JSON_parse (JSON_stringify s a) s = (snap, s1)"
    by (cases "JSON_parse (JSON_stringify s a) s")
  note fr = JSON_parse_frame[OF jp] JSON_parse_frame2[OF jp]
  have cfg1: "stages s1 = stages s" "records s1 = records s" "cache s1 = cache s"
    "skipRecording s1 = skipRecording s" "enableLiveDebug s1 = enableLiveDebug s"
    "inMemCycles s1 = inMemCycles s" "onPurgeCallback s1 = onPurgeCallback s"
    using fr(10) by (simp_all add: sameConfig_def)
  have lt: "a < nextAddr s" "recentCycles (objects s a) < nextAddr s"
    using arenaInv_rec[OF inv rec] by simp_all
  have asn: "a \<noteq> snap" using lt(1) fr(1) by simp
  let ?s1 = "s1\<lparr>purgeCalls := purgeCalls s1 @ [(nm, snap)]\<rparr>"
  let ?s2 = "?s1\<lparr>cycArrays := (cycArrays ?s1)(nextAddr ?s1 := []), nextAddr := nextAddr ?s1 + 1\<rparr>"
  let ?s' = "?s2\<lparr>objects := (objects ?s2)(a := (objects ?s2 a)\<lparr>recentCycles := nextAddr s1\<rparr>)\<rparr>"
  have 1: "purgeArena nm s = Inr ?s'"
    using rec True jp by (simp add: purgeArena_def getProp_def newCycArray_def)
  have oa: "objects s1 a = objects s a" using fr(6)[OF lt(1)] .
  have 2: "updates nm (\<lambda>v. v\<lparr>recentCyclesV := []\<rparr>) s ?s'"
  proof (rule updatesI[OF inv rec])
    show "sameConfig s ?s'" by (simp add: sameConfig_def cfg1)
    show "onlyTouches s a ?s'"
      using fr(3,6,7,8) by (auto simp: onlyTouches_def)
    show "sameShape s a ?s'"
      using fr(3) oa by (auto simp: sameShape_def split: RefTime.splits)
    show "JSON_stringify ?s' a = (JSON_stringify s a)\<lparr>recentCyclesV := []\<rparr>"
      using oa fr(7) arenaInv_rec(3)[OF inv rec]
      by (auto simp: JSON_stringify_def typed_def split: RefTime.splits)
  qed
  have 3: "purgeCalls ?s' = purgeCalls s @ [(nm, snap)]" using fr(11) by simp
  have osnap: "objects ?s' snap = objects s1 snap" using asn by simp
  have 4: "JSON_stringify ?s' snap = JSON_stringify s a"
  proof -
    have "JSON_stringify ?s' snap = JSON_stringify s1 snap"
      using fr(12) asn by (auto simp: JSON_stringify_def split: RefTime.splits)
    then show ?thesis using fr(9) by simp
  qed
  have 5: "detached ?s' snap"
  proof (rule detachedI)
    fix m b assume r: "records ?s' m = Some b"
    then have r0: "records s m = Some b" by (simp add: cfg1)
    have blt: "b < nextAddr s" "recentCycles (objects s b) < nextAddr s"
      using arenaInv_rec[OF inv r0] by simp_all
    have ob: "objects s1 b = objects s b" using fr(6)[OF blt(1)] .
    have bq: "q < nextAddr s" if "currentRefTime (objects s b) = Arr q" for q
      using arenaInv_async(2)[OF inv r0 that] .
    show "b \<noteq> snap \<and> recentCycles (objects ?s' b) \<noteq> recentCycles (objects ?s' snap) \<and>
          (\<forall>q. currentRefTime (objects ?s' b) = Arr q \<longrightarrow> currentRefTime (objects ?s' snap) \<noteq> Arr q)"
    proof (intro conjI allI impI)
      show "b \<noteq> snap" using blt(1) fr(1) by simp
      show "recentCycles (objects ?s' b) \<noteq> recentCycles (objects ?s' snap)"
        using fr(4,12) blt(2) ob asn by (cases "b = a") auto
    next
      fix q assume "currentRefTime (objects ?s' b) = Arr q"
      then have "currentRefTime (objects s b) = Arr q"
        using ob by (cases "b = a") auto
      then have "q < nextAddr s" by (rule bq)
      then show "currentRefTime (objects ?s' snap) \<noteq> Arr q"
        using fr(5)[of q] asn by auto
    qed
  qed
  show ?thesis using 1 2 3 4 5 True by auto
qed

lemma startStage_updates:
  assumes inv: "arenaInv s" and rec: "records s nm = Some a" and on: "\<not> skipRecording s"
  shows "\<exists>s'. startStage nm now s = Inr s' \<and> updates nm (startV now) s s' \<and>
           purgeCalls s' = purgeCalls s"
  using startStage_effect[OF assms, of now] by (auto simp: updates_def)

lemma retainOrPurge_effect:
  assumes inv: "arenaInv s" and rec: "records s nm = Some a"
  shows "\<exists>s'. retainOrPurge nm a s = Inr s' \<and>
           updates nm (\<lambda>v. v\<lparr>recentCyclesV :=
              retain (enableLiveDebug s) (inMemCycles s) (recentCyclesV v)\<rparr>) s s' \<and>
           (if \<not> enableLiveDebug s \<and> onPurgeCallback s
            then \<exists>snap. purgeCalls s' = purgeCalls s @ [(nm, snap)] \<and>
                   JSON_stringify s' snap = JSON_stringify s a \<and> detached s' snap
            else purgeCalls s' = purgeCalls s)"
proof (cases "enableLiveDebug s")
  case True
  then show ?thesis using retain_live_effect[OF inv rec True] by simp
next
  case False
  then have "retainOrPurge nm a s = purgeArena nm s" by (simp add: retainOrPurge_def)
  then show ?thesis using purgeArena_effect[OF inv rec] False by (simp add: retain_def)
qed

lemma endStage_effect:
  assumes inv: "arenaInv s" and rec: "records s nm = Some a" and on: "\<not> skipRecording s"
  shows "\<exists>s'. endStage nm event now s = Inr s' \<and>
           updates nm (endStageV (enableLiveDebug s) (inMemCycles s) event now) s s' \<and>
           (if completes event (JSON_stringify s a) \<and> \<not> enableLiveDebug s \<and> onPurgeCallback s
            then \<exists>snap. purgeCalls s' = purgeCalls s @ [(nm, snap)] \<and>
                   JSON_stringify s' snap =
                     addCycle (the (pendingRef event (JSON_stringify s a))) now
                       (clearRef event (JSON_stringify s a)) \<and>
                   detached s' snap
            else purgeCalls s' = purgeCalls s)"
proof (cases "completes event (JSON_stringify s a)")
  case False
  then have pend: "pendingRef event (JSON_stringify s a) = None \<or>
               pendingRef event (JSON_stringify s a) = Some 0"
    by (auto simp: completes_def split: option.splits)
  obtain s' where e: "endStage nm event now s = Inr s'" and u: "updates nm (takeRef event) s s'"
    and p: "purgeCalls s' = purgeCalls s"
    using endStage_idle[OF inv rec on pend] by blast
  have "updates nm (endStageV (enableLiveDebug s) (inMemCycles s) event now) s s'"
    by (rule updates_cong[OF u])
      (use pend rec in \<open>auto simp: endStageV_def stageData_def takeRef_def pendingRef_def
         split: option.splits RefTimeV.splits list.splits\<close>)
  then show ?thesis using e p False by simp
next
  case True
  then obtain x where pend: "pendingRef event (JSON_stringify s a) = Some x" and nz: "x \<noteq> 0"
    by (auto simp: completes_def split: option.splits)
  obtain s3 where e: "endStage nm event now s = retainOrPurge nm a s3"
    and u: "updates nm (\<lambda>v. addCycle x now (clearRef event v)) s s3"
    and p: "purgeCalls s3 = purgeCalls s"
    using endStage_recorded[OF inv rec on pend nz] by blast
  have inv3: "arenaInv s3" and rec3: "records s3 nm = Some a"
    and cfg3: "enableLiveDebug s3 = enableLiveDebug s" "inMemCycles s3 = inMemCycles s"
      "onPurgeCallback s3 = onPurgeCallback s"
    using u rec by (simp_all add: updates_def sameConfig_def)
  have sd3: "JSON_stringify s3 a = addCycle x now (clearRef event (JSON_stringify s a))"
    using u rec rec3 by (simp add: updates_def stageData_def)
  obtain s' where r: "retainOrPurge nm a s3 = Inr s'"
    and u': "updates nm (\<lambda>v. v\<lparr>recentCyclesV :=
              retain (enableLiveDebug s3) (inMemCycles s3) (recentCyclesV v)\<rparr>) s3 s'"
    and p': "(if \<not> enableLiveDebug s3 \<and> onPurgeCallback s3
            then \<exists>snap. purgeCalls s' = purgeCalls s3 @ [(nm, snap)] \<and>
                   JSON_stringify s' snap = JSON_stringify s3 a \<and> detached s' snap
            else purgeCalls s' = purgeCalls s3)"
    using retainOrPurge_effect[OF inv3 rec3] by blast
  have "updates nm (endStageV (enableLiveDebug s) (inMemCycles s) event now) s s'"
    by (rule updates_cong[OF updates_trans[OF u u']])
      (use pend nz rec in \<open>auto simp: endStageV_def stageData_def cfg3 addCycle_def clearRef_def
         split: option.splits RefTimeV.splits\<close>)
  then show ?thesis using e r p p' True pend by (auto simp: cfg3 sd3)
qed

subsection \<open>Registration and reset\<close>

lemma initializeStage_eq:
  "initializeStage force stage s =
     (if getProp (records s) (stageNameOf stage) \<noteq> Undefined \<and> \<not> force then Inl DuplicateStage
      else if stageNameOf stage = ''__proto__'' then Inl OutsideModel
      else Inr (registerStage (stageNameOf stage) (stageTypeOf stage) s))"
proof (cases stage)
  case (StageName nm)
  show ?thesis
    unfolding initializeStage_def registerStage_def stageNameOf_def stageTypeOf_def StageName
    by (simp add: Let_def split_def)
next
  case (StageExtened e)
  show ?thesis
    unfolding initializeStage_def registerStage_def stageNameOf_def stageTypeOf_def StageExtened
    by (cases "type e") (simp_all add: Let_def split_def)
qed

lemma proto_not_Undefined: "getProp obj ''__proto__'' \<noteq> Undefined"
  by (simp add: getProp_def objectPrototypeKeys_def split: option.splits)

lemma getProp_Undefined: "getProp obj key = Undefined \<Longrightarrow> obj key = None"
  by (simp add: getProp_def split: option.splits)

lemma registerStage_Sync:
  "registerStage nm Sync s =
     s\<lparr>cycArrays := (cycArrays s)(nextAddr s := []),
       objects := (objects s)(nextAddr s + 1 :=
          \<lparr>currentRefTime = Num 0, totalCycles = 0, recentCycles = nextAddr s\<rparr>),
       nextAddr := nextAddr s + 2,
       stages := stages s @ [\<lparr>name = nm, type = Some Sync\<rparr>],
       records := (records s)(nm \<mapsto> nextAddr s + 1),
       cache := (cache s)(nm \<mapsto> Sync)\<rparr>"
  by (simp add: registerStage_def newObject_def newNumArray_def newCycArray_def)

lemma registerStage_Async:
  "registerStage nm Async s =
     s\<lparr>numArrays := (numArrays s)(nextAddr s := []),
       cycArrays := (cycArrays s)(nextAddr s + 1 := []),
       objects := (objects s)(nextAddr s + 2 :=
          \<lparr>currentRefTime = Arr (nextAddr s), totalCycles = 0, recentCycles = nextAddr s + 1\<rparr>),
       nextAddr := nextAddr s + 3,
       stages := stages s @ [\<lparr>name = nm, type = Some Async\<rparr>],
       records := (records s)(nm \<mapsto> nextAddr s + 2),
       cache := (cache s)(nm \<mapsto> Async)\<rparr>"
  by (simp add: registerStage_def newObject_def newNumArray_def newCycArray_def)

lemma register_generic:
  assumes inv: "arenaInv s" and nproto: "nm \<noteq> ''__proto__''"
    and recs: "records s' = (records s)(nm \<mapsto> a)"
    and cch: "cache s' = (cache s)(nm \<mapsto> ty)"
    and stgs: "stages s' = stages s @ [\<lparr>name = nm, type = Some ty\<rparr>]"
    and a: "nextAddr s \<le> a" "a < nextAddr s'"
    and rc: "nextAddr s \<le> recentCycles (objects s' a)" "recentCycles (objects s' a) < nextAddr s'"
    and ref: "case currentRefTime (objects s' a) of
                Num k \<Rightarrow> ty = Sync
              | Arr q \<Rightarrow> ty = Async \<and> nextAddr s \<le> q \<and> q < nextAddr s'"
    and frame: "\<And>x. x < nextAddr s \<Longrightarrow>
       objects s' x = objects s x \<and> numArrays s' x = numArrays s x \<and> cycArrays s' x = cycArrays s x"
    and nxt: "nextAddr s \<le> nextAddr s'"
  shows "arenaInv s'" and "\<forall>m. m \<noteq> nm \<longrightarrow> stageData s' m = stageData s m"
proof -
  have old: "records s m = Some b \<and> b < nextAddr s \<and> objects s' b = objects s b"
    if "records s' m = Some b" "m \<noteq> nm" for m b
  proof -
    have r0: "records s m = Some b" using that by (simp add: recs)
    then show ?thesis using arenaInv_rec(1)[OF inv r0] frame by simp
  qed
  have new: "b = a" if "records s' nm = Some b" for b using that by (simp add: recs)
  show "arenaInv s'"
  proof (rule arenaInvI)
    fix m b assume r: "records s' m = Some b"
    show "b < nextAddr s' \<and> recentCycles (objects s' b) < nextAddr s' \<and> typed s' m b"
    proof (cases "m = nm")
      case True
      then have "b = a" using new r by simp
      then show ?thesis using a rc ref True
        by (auto simp: typed_def cch split: RefTime.splits)
    next
      case False
      note o = old[OF r False]
      then show ?thesis using arenaInv_rec[of s m b] inv nxt False
        by (auto simp: typed_def cch split: RefTime.splits)
    qed
  next
    fix m m' b b' assume r: "records s' m = Some b" "records s' m' = Some b'" "m \<noteq> m'"
    have fresh: "separate s' a c \<and> separate s' c a"
      if "records s c' = Some c" "objects s' c = objects s c" for c c'
      using arenaInv_rec[OF inv that(1)] arenaInv_async(2)[OF inv that(1)] a rc ref that(2)
      by (auto simp: separate_def split: RefTime.splits)
    show "separate s' b b'"
    proof (cases "m = nm")
      case True
      then have "b = a" using new r by simp
      moreover have "m' \<noteq> nm" using True r(3) by simp
      ultimately show ?thesis using fresh old[OF r(2)] by blast
    next
      case False
      note o = old[OF r(1) False]
      show ?thesis
      proof (cases "m' = nm")
        case True
        then have "b' = a" using new r by simp
        then show ?thesis using fresh o by blast
      next
        case F2: False
        note o' = old[OF r(2) F2]
        have "separate s b b'"
          using arenaInv_sep[of s m b m' b'] inv o o' r(3) by (auto simp: separate_def)
        then show ?thesis using o o' by (simp add: separate_def)
      qed
    qed
  next
    fix st assume "st \<in> set (stages s')"
    then show "name st \<noteq> ''__proto__'' \<and> records s' (name st) \<noteq> None"
      using arenaInv_stages(1)[OF inv] nproto by (auto simp: stgs recs)
  next
    fix m assume "records s' m \<noteq> None"
    then show "m \<in> name ` set (stages s')"
      using arenaInv_stages(2)[OF inv, of m] by (auto simp: stgs recs split: if_splits)
  next
    show "dom (cache s') = dom (records s')"
      using arenaInv_stages(3)[OF inv] by (simp add: cch recs)
  qed
  show "\<forall>m. m \<noteq> nm \<longrightarrow> stageData s' m = stageData s m"
  proof (intro allI impI)
    fix m assume ne: "m \<noteq> nm"
    show "stageData s' m = stageData s m"
    proof (rule stageData_cong)
      show "records s' m = records s m" using ne by (simp add: recs)
    next
      fix b assume r0: "records s m = Some b"
      show "objects s' b = objects s b" using frame arenaInv_rec(1)[OF inv r0] by simp
      show "cycArrays s' (recentCycles (objects s b)) = cycArrays s (recentCycles (objects s b))"
        using frame arenaInv_rec(2)[OF inv r0] by simp
    next
      fix b q assume r0: "records s m = Some b" and q: "currentRefTime (objects s b) = Arr q"
      show "numArrays s' q = numArrays s q" using frame arenaInv_async(2)[OF inv r0 q] by simp
    qed
  qed
qed

lemma registerStage_effect:
  assumes inv: "arenaInv s" and nproto: "nm \<noteq> ''__proto__''"
  shows "arenaInv (registerStage nm ty s)"
    and "\<forall>m. m \<noteq> nm \<longrightarrow> stageData (registerStage nm ty s) m = stageData s m"
    and "stageData (registerStage nm ty s) nm = Some (freshData ty)"
    and "sameFlags s (registerStage nm ty s)"
    and "dom (records (registerStage nm ty s)) = insert nm (dom (records s))"
    and "stages (registerStage nm ty s) = stages s @ [\<lparr>name = nm, type = Some ty\<rparr>]"
proof -
  have g: "arenaInv (registerStage nm ty s) \<and>
           (\<forall>m. m \<noteq> nm \<longrightarrow> stageData (registerStage nm ty s) m = stageData s m)"
  proof (cases ty)
    case Sync
    show ?thesis
      unfolding Sync
      using register_generic[OF inv nproto, of "registerStage nm Sync s" "nextAddr s + 1" Sync]
      by (simp add: registerStage_Sync)
  next
    case Async
    show ?thesis
      unfolding Async
      using register_generic[OF inv nproto, of "registerStage nm Async s" "nextAddr s + 2" Async]
      by (simp add: registerStage_Async)
  qed
  then show "arenaInv (registerStage nm ty s)"
    and "\<forall>m. m \<noteq> nm \<longrightarrow> stageData (registerStage nm ty s) m = stageData s m"
    by simp_all
  show "stageData (registerStage nm ty s) nm = Some (freshData ty)"
    by (cases ty)
      (simp_all add: registerStage_Sync registerStage_Async stageData_def JSON_stringify_def
        freshData_def)
  show "sameFlags s (registerStage nm ty s)"
    by (cases ty) (simp_all add: registerStage_Sync registerStage_Async sameFlags_def)
  show "dom (records (registerStage nm ty s)) = insert nm (dom (records s))"
    by (cases ty) (simp_all add: registerStage_Sync registerStage_Async)
  show "stages (registerStage nm ty s) = stages s @ [\<lparr>name = nm, type = Some ty\<rparr>]"
    by (cases ty) (simp_all add: registerStage_Sync registerStage_Async)
qed

lemma registerStage_records:
  "dom (records (registerStage nm ty s)) = insert nm (dom (records s))"
  "records s m \<noteq> None \<Longrightarrow> records (registerStage nm ty s) m \<noteq> None"
  by (cases ty; simp add: registerStage_Sync registerStage_Async)+

lemma initializePerformanceData_inv:
  assumes "arenaInv s" "initializePerformanceData stgs force s = Inr s'"
  shows "arenaInv s' \<and> sameFlags s s' \<and>
         dom (records s') = dom (records s) \<union> stageNameOf ` set stgs \<and>
         (\<forall>m. m \<notin> stageNameOf ` set stgs \<longrightarrow> stageData s' m = stageData s m) \<and>
         (\<forall>m \<in> stageNameOf ` set stgs. \<exists>ty. stageData s' m = Some (freshData ty))"
  using assms
proof (induction stgs arbitrary: s)
  case Nil
  then show ?case by (simp add: sameFlags_def)
next
  case (Cons stage rest)
  let ?nm = "stageNameOf stage" and ?ty = "stageTypeOf stage"
  let ?s1 = "registerStage ?nm ?ty s"
  from Cons.prems(2) have np: "?nm \<noteq> ''__proto__''"
    and step: "initializeStage force stage s = Inr ?s1"
    and rest: "initializePerformanceData rest force ?s1 = Inr s'"
    by (auto simp: initializeStage_eq split: if_splits)
  note e = registerStage_effect[OF Cons.prems(1) np, of ?ty]
  from Cons.IH[OF e(1) rest]
  have ih: "arenaInv s'" "sameFlags ?s1 s'"
    "dom (records s') = dom (records ?s1) \<union> stageNameOf ` set rest"
    "\<forall>m. m \<notin> stageNameOf ` set rest \<longrightarrow> stageData s' m = stageData ?s1 m"
    "\<forall>m \<in> stageNameOf ` set rest. \<exists>ty. stageData s' m = Some (freshData ty)"
    by simp_all
  have 1: "sameFlags s s'" using e(4) ih(2) by (simp add: sameFlags_def)
  have 2: "dom (records s') = dom (records s) \<union> stageNameOf ` set (stage # rest)"
    using ih(3) e(5) by auto
  have 3: "\<forall>m. m \<notin> stageNameOf ` set (stage # rest) \<longrightarrow> stageData s' m = stageData s m"
    using ih(4) e(2) by auto
  have 4: "\<forall>m \<in> stageNameOf ` set (stage # rest). \<exists>ty. stageData s' m = Some (freshData ty)"
  proof
    fix m assume m: "m \<in> stageNameOf ` set (stage # rest)"
    show "\<exists>ty. stageData s' m = Some (freshData ty)"
    proof (cases "m \<in> stageNameOf ` set rest")
      case True
      then show ?thesis using ih(5) by blast
    next
      case False
      then have "m = ?nm" using m by auto
      then show ?thesis using ih(4) False e(3) by auto
    qed
  qed
  show ?case using ih(1) 1 2 3 4 by blast
qed

lemma initializePerformanceData_duplicate:
  assumes "\<exists>stage \<in> set stgs. records s (stageNameOf stage) \<noteq> None"
  shows "initializePerformanceData stgs False s = Inl DuplicateStage"
  using assms
proof (induction stgs arbitrary: s)
  case Nil
  then show ?case by simp
next
  case (Cons stage rest)
  show ?case
  proof (cases "getProp (records s) (stageNameOf stage) = Undefined")
    case False
    then show ?thesis by (simp add: initializeStage_eq)
  next
    case True
    then have np: "stageNameOf stage \<noteq> ''__proto__''" and
      none: "records s (stageNameOf stage) = None"
      using proto_not_Undefined[of "records s"] getProp_Undefined[OF True] by auto
    from Cons.prems none obtain st where st: "st \<in> set rest" "records s (stageNameOf st) \<noteq> None"
      by auto
    let ?s1 = "registerStage (stageNameOf stage) (stageTypeOf stage) s"
    have "\<exists>stage \<in> set rest. records ?s1 (stageNameOf stage) \<noteq> None"
      using st registerStage_records(2) by blast
    from Cons.IH[OF this] show ?thesis using True np by (simp add: initializeStage_eq)
  qed
qed

text \<open>A list that holds a name twice is refused, whatever is registered.\<close>

lemma initializePerformanceData_repeated:
  assumes "\<not> distinct (map stageNameOf stgs)"
  shows "initializePerformanceData stgs False s = Inl DuplicateStage"
  using assms
proof (induction stgs arbitrary: s)
  case Nil
  then show ?case by simp
next
  case (Cons stage rest)
  show ?case
  proof (cases "getProp (records s) (stageNameOf stage) = Undefined")
    case False
    then show ?thesis by (simp add: initializeStage_eq)
  next
    case True
    then have np: "stageNameOf stage \<noteq> ''__proto__''"
      using proto_not_Undefined[of "records s"] by auto
    let ?s1 = "registerStage (stageNameOf stage) (stageTypeOf stage) s"
    have step: "initializePerformanceData (stage # rest) False s =
                  initializePerformanceData rest False ?s1"
      using True np by (simp add: initializeStage_eq)
    show ?thesis
    proof (cases "stageNameOf stage \<in> stageNameOf ` set rest")
      case True
      have "records ?s1 (stageNameOf stage) \<noteq> None"
        using registerStage_records(1)[of "stageNameOf stage" "stageTypeOf stage" s]
        by (auto simp: dom_def)
      from True obtain st where "st \<in> set rest" "stageNameOf st = stageNameOf stage" by auto
      with \<open>records ?s1 (stageNameOf stage) \<noteq> None\<close>
      have "\<exists>st \<in> set rest. records ?s1 (stageNameOf st) \<noteq> None" by metis
      from initializePerformanceData_duplicate[OF this] step show ?thesis by simp
    next
      case False
      then have "\<not> distinct (map stageNameOf rest)" using Cons.prems by auto
      from Cons.IH[OF this] step show ?thesis by simp
    qed
  qed
qed

lemma initializePerformanceData_force:
  assumes "\<forall>stage \<in> set stgs. stageNameOf stage \<noteq> ''__proto__''"
  shows "\<exists>s'. initializePerformanceData stgs True s = Inr s'"
  using assms
  by (induction stgs arbitrary: s) (simp_all add: initializeStage_eq)

lemma arenaInv_emptyArena: "arenaInv (emptyArena skip live inMem onPurge)"
  by (simp add: arenaInv_def emptyArena_def)

lemma arenaInv_constructor:
  assumes "constructor stgs skipRec inMem liveDebug onPurge = Inr s"
  shows "arenaInv s"
  using initializePerformanceData_inv[OF arenaInv_emptyArena] assms
  unfolding constructor_def by blast

lemma resetPerformanceData_effect:
  assumes inv: "arenaInv s"
  shows "\<exists>s'. resetPerformanceData s = Inr s' \<and> arenaInv s' \<and> sameFlags s s' \<and>
           dom (records s') = dom (records s) \<and>
           (\<forall>m \<in> dom (records s). \<exists>ty. stageData s' m = Some (freshData ty))"
proof -
  let ?stgs = "map StageExtened (stages s)"
  have names: "stageNameOf ` set ?stgs = name ` set (stages s)"
    by (auto simp: stageNameOf_def image_iff)
  have dom: "name ` set (stages s) = dom (records s)"
    using arenaInv_stages[OF inv] by (auto simp: dom_def)
  have "\<forall>stage \<in> set ?stgs. stageNameOf stage \<noteq> ''__proto__''"
    using arenaInv_stages(1)[OF inv] by (auto simp: stageNameOf_def)
  then obtain s' where r: "initializePerformanceData ?stgs True s = Inr s'"
    using initializePerformanceData_force by blast
  have nd: "stageNameOf ` set ?stgs = dom (records s)" using names dom by simp
  from initializePerformanceData_inv[OF inv r]
  have "arenaInv s'" "sameFlags s s'" "dom (records s') = dom (records s)"
    "\<forall>m \<in> dom (records s). \<exists>ty. stageData s' m = Some (freshData ty)"
    unfolding nd by auto
  then show ?thesis using r by (simp add: resetPerformanceData_def)
qed

subsection \<open>Single operations and runs\<close>

lemma startStage_noop:
  assumes "skipRecording s \<or> getProp (records s) nm = Undefined"
  shows "startStage nm now s = Inr s"
  using assms by (auto simp: startStage_def)

lemma endStage_noop:
  assumes "skipRecording s \<or> getProp (records s) nm = Undefined"
  shows "endStage nm event now s = Inr s"
  using assms by (auto simp: endStage_def)

lemma startStage_cases:
  assumes inv: "arenaInv s" and st: "startStage nm now s = Inr s'"
  shows "(s' = s \<and> (skipRecording s \<or> records s nm = None)) \<or>
         (\<not> skipRecording s \<and> records s nm \<noteq> None \<and> updates nm (startV now) s s' \<and>
          purgeCalls s' = purgeCalls s)"
proof (cases "skipRecording s")
  case True
  then show ?thesis using st by (simp add: startStage_def)
next
  case False
  show ?thesis
  proof (cases "records s nm")
    case None
    then show ?thesis using st False
      by (auto simp: startStage_def getProp_def split: if_splits)
  next
    case (Some a)
    then show ?thesis using startStage_updates[OF inv Some False, of now] st False by auto
  qed
qed

lemma endStage_cases:
  assumes inv: "arenaInv s" and st: "endStage nm event now s = Inr s'"
  shows "(s' = s \<and> (skipRecording s \<or> records s nm = None)) \<or>
         (\<not> skipRecording s \<and> records s nm \<noteq> None \<and>
          updates nm (endStageV (enableLiveDebug s) (inMemCycles s) event now) s s')"
proof (cases "skipRecording s")
  case True
  then show ?thesis using st by (simp add: endStage_def)
next
  case False
  show ?thesis
  proof (cases "records s nm")
    case None
    then show ?thesis using st False
      by (auto simp: endStage_def getProp_def split: if_splits option.splits)
  next
    case (Some a)
    then show ?thesis using endStage_effect[OF inv Some False, of event now] st False by auto
  qed
qed

lemma arenaInv_applyOp:
  assumes "arenaInv s" "applyOp x s = Inr s'"
  shows "arenaInv s'"
proof (cases x)
  case (StartStage nm now)
  then show ?thesis using startStage_cases[OF assms(1), of nm now s'] assms
    by (auto simp: updates_def)
next
  case (EndStage nm event now)
  then show ?thesis using endStage_cases[OF assms(1), of nm event now s'] assms
    by (auto simp: updates_def)
next
  case (InitPerformanceData skip)
  have "arenaInv (initPerformanceData skip s)"
    by (rule arenaInv_same_shape[OF assms(1)])
      (auto simp: initPerformanceData_def split: RefTime.splits)
  then show ?thesis using InitPerformanceData assms by (auto split: if_splits)
next
  case ResetPerformanceData
  then show ?thesis using resetPerformanceData_effect[OF assms(1)] assms
    by (auto split: if_splits)
qed

lemma arenaInv_applyOps:
  assumes "arenaInv s" "applyOps xs s = Inr s'"
  shows "arenaInv s'"
  using assms
  by (induction xs arbitrary: s) (auto split: sum.splits dest: arenaInv_applyOp)

lemma arenaInv_arenaOf: "arenaInv (arenaOf stgs skipRec inMem liveDebug onPurge)"
  by (auto simp: arenaOf_def arenaInv_emptyArena split: sum.splits dest: arenaInv_constructor)

lemma arenaInv_after: "arenaInv s \<Longrightarrow> arenaInv (after xs s)"
  by (auto simp: after_def split: sum.splits dest: arenaInv_applyOps)

text \<open>
  The branches marked \<open>OutsideModel\<close> are never taken: not by the constructor, and not by
  an operation on a state that satisfies the invariant.
\<close>

lemma initializePerformanceData_error:
  assumes "initializePerformanceData stgs False s = Inl e"
  shows "e = DuplicateStage"
  using assms
proof (induction stgs arbitrary: s)
  case Nil
  then show ?case by simp
next
  case (Cons stage rest)
  show ?case
  proof (cases "getProp (records s) (stageNameOf stage) = Undefined")
    case False
    then show ?thesis using Cons.prems by (simp add: initializeStage_eq)
  next
    case True
    then have "stageNameOf stage \<noteq> ''__proto__''"
      using proto_not_Undefined[of "records s"] by auto
    then show ?thesis using Cons.prems True Cons.IH by (simp add: initializeStage_eq)
  qed
qed

lemma constructor_error:
  assumes "constructor stgs skipRec inMem liveDebug onPurge = Inl e"
  shows "e = DuplicateStage"
  using assms initializePerformanceData_error unfolding constructor_def by blast

lemma applyOp_inside_model:
  assumes inv: "arenaInv s"
  shows "applyOp x s \<noteq> Inl OutsideModel"
proof (cases x)
  case (StartStage nm now)
  show ?thesis
  proof (cases "skipRecording s \<or> getProp (records s) nm = Undefined")
    case True
    then show ?thesis using startStage_noop[OF True] StartStage by simp
  next
    case False
    show ?thesis
    proof (cases "records s nm")
      case None
      then have "nm \<notin> dom (cache s)" using arenaInv_stages(3)[OF inv] by (simp add: domIff)
      then have "cache s nm = None" by (simp add: domIff)
      then show ?thesis using None False StartStage
        by (auto simp: startStage_def getProp_def)
    next
      case (Some a)
      then show ?thesis using startStage_updates[OF inv Some, of now] False StartStage by auto
    qed
  qed
next
  case (EndStage nm event now)
  show ?thesis
  proof (cases "skipRecording s \<or> getProp (records s) nm = Undefined")
    case True
    then show ?thesis using endStage_noop[OF True] EndStage by simp
  next
    case False
    show ?thesis
    proof (cases "records s nm")
      case None
      then show ?thesis using False EndStage
        by (auto simp: endStage_def getProp_def split: option.splits)
    next
      case (Some a)
      then show ?thesis using endStage_effect[OF inv Some, of event now] False EndStage by auto
    qed
  qed
next
  case (InitPerformanceData skip)
  then show ?thesis by simp
next
  case ResetPerformanceData
  then show ?thesis using resetPerformanceData_effect[OF inv] by auto
qed

subsection \<open>The lifetime counter along a run\<close>

lemma totalCyclesV_endStageV:
  "totalCyclesV (endStageV live cap event now v) =
     totalCyclesV v + (if completes event v then 1 else 0)"
  by (auto simp: endStageV_def completes_def addCycle_def clearRef_def takeRef_def
      split: option.splits RefTimeV.splits)

lemma totalCyclesV_startV: "totalCyclesV (startV now v) = totalCyclesV v"
  by (simp add: startV_def)

lemma stageData_initPerformanceData:
  "stageData (initPerformanceData skip s) m = stageData s m"
  by (rule stageData_cong) (simp_all add: initPerformanceData_def)

lemma applyOp_total:
  assumes inv: "arenaInv s" and ap: "applyOp x s = Inr s'" and nr: "x \<noteq> ResetPerformanceData"
    and sd: "stageData s m = Some v"
  shows "\<exists>v'. stageData s' m = Some v' \<and> totalCyclesV v' = totalCyclesV v + recordedBy m x s"
proof (cases x)
  case (StartStage nm now)
  then have st: "startStage nm now s = Inr s'" using ap by simp
  have c: "recordedBy m x s = 0" by (simp add: recordedBy_def StartStage)
  from startStage_cases[OF inv st] show ?thesis
  proof
    assume "s' = s \<and> (skipRecording s \<or> records s nm = None)"
    then show ?thesis using sd c by simp
  next
    assume h: "\<not> skipRecording s \<and> records s nm \<noteq> None \<and> updates nm (startV now) s s' \<and>
          purgeCalls s' = purgeCalls s"
    show ?thesis
    proof (cases "m = nm")
      case True
      then have "stageData s' m = Some (startV now v)" using h sd by (simp add: updates_def)
      then show ?thesis using c by (simp add: totalCyclesV_startV)
    next
      case False
      then have "stageData s' m = Some v" using h sd by (simp add: updates_def)
      then show ?thesis using c by simp
    qed
  qed
next
  case (EndStage nm event now)
  then have st: "endStage nm event now s = Inr s'" using ap by simp
  from endStage_cases[OF inv st] show ?thesis
  proof
    assume h: "s' = s \<and> (skipRecording s \<or> records s nm = None)"
    then have "nm = m \<longrightarrow> skipRecording s" using sd by (auto simp: stageData_def)
    then have "recordedBy m x s = 0" by (auto simp: recordedBy_def EndStage)
    then show ?thesis using h sd by simp
  next
    assume h: "\<not> skipRecording s \<and> records s nm \<noteq> None \<and>
          updates nm (endStageV (enableLiveDebug s) (inMemCycles s) event now) s s'"
    show ?thesis
    proof (cases "m = nm")
      case True
      then have "stageData s' m = Some (endStageV (enableLiveDebug s) (inMemCycles s) event now v)"
        using h sd by (simp add: updates_def)
      moreover have "recordedBy m x s = (if completes event v then 1 else 0)"
        using True h sd by (simp add: recordedBy_def EndStage)
      ultimately show ?thesis by (simp add: totalCyclesV_endStageV)
    next
      case False
      then have "stageData s' m = Some v" using h sd by (simp add: updates_def)
      moreover have "recordedBy m x s = 0" using False by (simp add: recordedBy_def EndStage)
      ultimately show ?thesis by simp
    qed
  qed
next
  case (InitPerformanceData skip)
  then have "stageData s' m = stageData s m"
    using ap by (auto simp: stageData_initPerformanceData split: if_splits)
  then show ?thesis using sd by (simp add: recordedBy_def InitPerformanceData)
next
  case ResetPerformanceData
  then show ?thesis using nr by simp
qed

lemma applyOps_total:
  assumes "arenaInv s" "applyOps xs s = Inr s'" "ResetPerformanceData \<notin> set xs"
    "stageData s m = Some v"
  shows "\<exists>v'. stageData s' m = Some v' \<and> totalCyclesV v' = totalCyclesV v + recordedCount m xs s"
  using assms
proof (induction xs arbitrary: s v)
  case Nil
  then show ?case by simp
next
  case (Cons x xs)
  from Cons.prems(2) obtain s1 where 1: "applyOp x s = Inr s1" and 2: "applyOps xs s1 = Inr s'"
    by (auto split: sum.splits)
  have nr: "x \<noteq> ResetPerformanceData" "ResetPerformanceData \<notin> set xs"
    using Cons.prems(3) by auto
  from applyOp_total[OF Cons.prems(1) 1 nr(1) Cons.prems(4)]
  obtain v1 where v1: "stageData s1 m = Some v1"
    "totalCyclesV v1 = totalCyclesV v + recordedBy m x s" by blast
  from Cons.IH[OF arenaInv_applyOp[OF Cons.prems(1) 1] 2 nr(2) v1(1)]
  obtain v' where "stageData s' m = Some v'"
    "totalCyclesV v' = totalCyclesV v1 + recordedCount m xs s1" by blast
  then show ?case using v1(2) 1 by simp
qed

lemma applyOp_deliveries:
  assumes inv: "arenaInv s" and ap: "applyOp x s = Inr s'" and nr: "x \<noteq> ResetPerformanceData"
    and mode: "\<not> enableLiveDebug s" "onPurgeCallback s"
  shows "deliveries m s' = deliveries m s + recordedBy m x s"
proof (cases x)
  case (StartStage nm now)
  then have st: "startStage nm now s = Inr s'" using ap by simp
  have "purgeCalls s' = purgeCalls s" using startStage_cases[OF inv st] by auto
  then show ?thesis by (simp add: deliveries_def recordedBy_def StartStage)
next
  case (EndStage nm event now)
  then have st: "endStage nm event now s = Inr s'" using ap by simp
  show ?thesis
  proof (cases "\<not> skipRecording s \<and> records s nm \<noteq> None")
    case False
    then have "s' = s" using endStage_cases[OF inv st] by auto
    moreover have "recordedBy m x s = 0"
      using False by (auto simp: recordedBy_def EndStage stageData_def)
    ultimately show ?thesis by simp
  next
    case True
    then obtain a where rec: "records s nm = Some a" by auto
    from endStage_effect[OF inv rec, of event now] True st mode
    have p: "if completes event (JSON_stringify s a)
             then \<exists>snap. purgeCalls s' = purgeCalls s @ [(nm, snap)]
             else purgeCalls s' = purgeCalls s"
      by (auto split: if_splits)
    have c: "recordedBy m x s = (if nm = m \<and> completes event (JSON_stringify s a) then 1 else 0)"
      using True rec by (auto simp: recordedBy_def EndStage stageData_def)
    show ?thesis using p c by (auto simp: deliveries_def split: if_splits)
  qed
next
  case (InitPerformanceData skip)
  then have "purgeCalls s' = purgeCalls s"
    using ap by (auto simp: initPerformanceData_def split: if_splits)
  then show ?thesis by (simp add: deliveries_def recordedBy_def InitPerformanceData)
next
  case ResetPerformanceData
  then show ?thesis using nr by simp
qed

lemma applyOp_mode:
  assumes "arenaInv s" "applyOp x s = Inr s'"
  shows "enableLiveDebug s' = enableLiveDebug s \<and> onPurgeCallback s' = onPurgeCallback s"
proof (cases x)
  case (StartStage nm now)
  then show ?thesis using startStage_cases[OF assms(1), of nm now s'] assms(2)
    by (auto simp: updates_def sameConfig_def)
next
  case (EndStage nm event now)
  then show ?thesis using endStage_cases[OF assms(1), of nm event now s'] assms(2)
    by (auto simp: updates_def sameConfig_def)
next
  case (InitPerformanceData skip)
  then show ?thesis using assms(2) by (auto simp: initPerformanceData_def split: if_splits)
next
  case ResetPerformanceData
  then show ?thesis using resetPerformanceData_effect[OF assms(1)] assms(2)
    by (auto simp: sameFlags_def split: if_splits)
qed

lemma applyOps_deliveries:
  assumes "arenaInv s" "applyOps xs s = Inr s'" "ResetPerformanceData \<notin> set xs"
    "\<not> enableLiveDebug s" "onPurgeCallback s"
  shows "deliveries m s' = deliveries m s + recordedCount m xs s"
  using assms
proof (induction xs arbitrary: s)
  case Nil
  then show ?case by simp
next
  case (Cons x xs)
  from Cons.prems(2) obtain s1 where 1: "applyOp x s = Inr s1" and 2: "applyOps xs s1 = Inr s'"
    by (auto split: sum.splits)
  have nr: "x \<noteq> ResetPerformanceData" "ResetPerformanceData \<notin> set xs"
    using Cons.prems(3) by auto
  have m1: "\<not> enableLiveDebug s1" "onPurgeCallback s1"
    using applyOp_mode[OF Cons.prems(1) 1] Cons.prems(4,5) by simp_all
  from Cons.IH[OF arenaInv_applyOp[OF Cons.prems(1) 1] 2 nr(2) m1]
    applyOp_deliveries[OF Cons.prems(1) 1 nr(1) Cons.prems(4,5), of m]
  show ?case using 1 by simp
qed

text \<open>
  Along a run of starts and ends at times other than 0, the counter follows the pairs
  counted on the calls.
\<close>

lemma pair_run:
  assumes "arenaInv s" and "\<not> skipRecording s" and "stageData s m = Some v"
    and "tracks p (currentRefTimeV v)" and "\<forall>x \<in> set xs. timed m x"
    and "applyOps xs s = Inr s'"
  shows "\<exists>v'. stageData s' m = Some v' \<and> totalCyclesV v' = totalCyclesV v + pairCount m p xs"
  using assms
proof (induction xs arbitrary: s v p)
  case Nil
  then show ?case by simp
next
  case (Cons x xs)
  from Cons.prems(6) obtain s1 where 1: "applyOp x s = Inr s1" and 2: "applyOps xs s1 = Inr s'"
    by (auto split: sum.splits)
  have tx: "timed m x" and txs: "\<forall>y \<in> set xs. timed m y" using Cons.prems(5) by auto
  have reg: "records s m \<noteq> None" using Cons.prems(3) by (auto simp: stageData_def)
  note inv1 = arenaInv_applyOp[OF Cons.prems(1) 1]
  show ?case
  proof (cases x)
    case (StartStage nm w)
    then have st: "startStage nm w s = Inr s1" using 1 by simp
    from startStage_cases[OF Cons.prems(1) st] show ?thesis
    proof
      assume h: "s1 = s \<and> (skipRecording s \<or> records s nm = None)"
      then have "nm \<noteq> m" using Cons.prems(2) reg by auto
      then show ?thesis
        using Cons.IH[OF Cons.prems(1-4) txs] 2 h by (simp add: StartStage)
    next
      assume h: "\<not> skipRecording s \<and> records s nm \<noteq> None \<and> updates nm (startV w) s s1 \<and>
          purgeCalls s1 = purgeCalls s"
      then have sk: "\<not> skipRecording s1" by (simp add: updates_def sameConfig_def)
      show ?thesis
      proof (cases "nm = m")
        case False
        then have "stageData s1 m = Some v" using h Cons.prems(3) by (simp add: updates_def)
        from Cons.IH[OF inv1 sk this Cons.prems(4) txs 2] False
        show ?thesis by (simp add: StartStage)
      next
        case True
        then have w: "w \<noteq> 0" using tx StartStage by simp
        have sd: "stageData s1 m = Some (startV w v)"
          using h Cons.prems(3) True by (simp add: updates_def)
        let ?p = "case p of Slot _ \<Rightarrow> Slot (Some w) | Queue q \<Rightarrow> Queue (q @ [w])"
        have tr: "tracks ?p (currentRefTimeV (startV w v))"
          using Cons.prems(4) w
          by (cases p; cases "currentRefTimeV v") (auto simp: startV_def)
        from Cons.IH[OF inv1 sk sd tr txs 2] True
        show ?thesis by (simp add: StartStage totalCyclesV_startV)
      qed
    qed
  next
    case (EndStage nm event w)
    then have st: "endStage nm event w s = Inr s1" using 1 by simp
    from endStage_cases[OF Cons.prems(1) st] show ?thesis
    proof
      assume h: "s1 = s \<and> (skipRecording s \<or> records s nm = None)"
      then have "nm \<noteq> m" using Cons.prems(2) reg by auto
      then show ?thesis
        using Cons.IH[OF Cons.prems(1-4) txs] 2 h by (simp add: EndStage)
    next
      assume h: "\<not> skipRecording s \<and> records s nm \<noteq> None \<and>
          updates nm (endStageV (enableLiveDebug s) (inMemCycles s) event w) s s1"
      then have sk: "\<not> skipRecording s1" by (simp add: updates_def sameConfig_def)
      show ?thesis
      proof (cases "nm = m")
        case False
        then have "stageData s1 m = Some v" using h Cons.prems(3) by (simp add: updates_def)
        from Cons.IH[OF inv1 sk this Cons.prems(4) txs 2] False
        show ?thesis by (simp add: EndStage)
      next
        case True
        let ?v1 = "endStageV (enableLiveDebug s) (inMemCycles s) event w v"
        have sd: "stageData s1 m = Some ?v1"
          using h Cons.prems(3) True by (simp add: updates_def)
        show ?thesis
        proof (cases event)
          case (Some ts)
          then have ts: "ts \<noteq> 0" using tx EndStage True by auto
          have e1: "currentRefTimeV ?v1 = currentRefTimeV v"
            "totalCyclesV ?v1 = totalCyclesV v + 1"
            using Some ts by (simp_all add: endStageV_def pendingRef_def addCycle_def clearRef_def)
          from Cons.IH[OF inv1 sk sd _ txs 2] Cons.prems(4) e1
          show ?thesis by (simp add: EndStage True Some)
        next
          case None
          show ?thesis
          proof (cases p)
            case (Slot o1)
            then obtain n where n: "currentRefTimeV v = NumV n"
              using Cons.prems(4) by (cases "currentRefTimeV v") auto
            show ?thesis
            proof (cases o1)
              case N: None
              then have "n = 0" using Cons.prems(4) Slot n by simp
              then have e1: "?v1 = v"
                using None n by (simp add: endStageV_def pendingRef_def takeRef_def)
              from Cons.IH[OF inv1 sk sd[unfolded e1] Cons.prems(4) txs 2]
              show ?thesis by (simp add: EndStage True None Slot N)
            next
              case (Some w0)
              then have nz: "n = w0" "w0 \<noteq> 0" using Cons.prems(4) Slot n by simp_all
              have e1: "currentRefTimeV ?v1 = NumV 0" "totalCyclesV ?v1 = totalCyclesV v + 1"
                using None n nz
                by (simp_all add: endStageV_def pendingRef_def addCycle_def clearRef_def)
              have tr: "tracks (Slot None) (currentRefTimeV ?v1)" using e1 by simp
              from Cons.IH[OF inv1 sk sd tr txs 2] e1
              show ?thesis by (simp add: EndStage True None Slot Some)
            qed
          next
            case (Queue q)
            then have qv: "currentRefTimeV v = ArrV q" "0 \<notin> set q"
              using Cons.prems(4) by (cases "currentRefTimeV v"; auto)+
            show ?thesis
            proof (cases q)
              case Nil
              then have e1: "?v1 = v"
                using None qv by (simp add: endStageV_def pendingRef_def)
              from Cons.IH[OF inv1 sk sd[unfolded e1] Cons.prems(4) txs 2]
              show ?thesis by (simp add: EndStage True None Queue Nil)
            next
              case (Cons y rest)
              then have y: "y \<noteq> 0" "0 \<notin> set rest" using qv by auto
              have e1: "currentRefTimeV ?v1 = ArrV rest" "totalCyclesV ?v1 = totalCyclesV v + 1"
                using None qv Cons y
                by (simp_all add: endStageV_def pendingRef_def addCycle_def clearRef_def)
              have tr: "tracks (Queue rest) (currentRefTimeV ?v1)" using e1 y by simp
              from Cons.IH[OF inv1 sk sd tr txs 2] e1
              show ?thesis by (simp add: EndStage True None Queue Cons)
            qed
          qed
        qed
      qed
    qed
  next
    case (InitPerformanceData b)
    then show ?thesis using tx by simp
  next
    case ResetPerformanceData
    then show ?thesis using tx by simp
  qed
qed

subsection \<open>Further properties of the code\<close>

text \<open>
  Over a whole run of plain starts and ends on an Async stage, in any interleaving: in
  live debug mode, as long as the capacity is not reached, \<^verbatim>\<open>recentCycles\<close> grows by
  exactly the cycles of the first-in first-out pairing, in the order of completion.
\<close>

lemma async_run_is_fifo:
  assumes "arenaInv s" and "\<not> skipRecording s" and "enableLiveDebug s"
    and "stageData s nm = Some v" and "currentRefTimeV v = ArrV q" and "0 \<notin> set q"
    and "\<forall>x \<in> set xs. plainOn nm x"
    and "real (length (recentCyclesV v) + length (snd (specFifo q xs))) < inMemCycles s"
  shows "\<exists>s'. applyOps xs s = Inr s' \<and>
           stageData s' nm =
             Some \<lparr>currentRefTimeV = ArrV (fst (specFifo q xs)),
                   totalCyclesV = totalCyclesV v + length (snd (specFifo q xs)),
                   recentCyclesV = recentCyclesV v @ snd (specFifo q xs)\<rparr>"
  using assms
proof (induction xs arbitrary: s v q)
  case Nil
  then show ?case by simp
next
  case (Cons x xs)
  from Cons.prems(4) obtain a where rec: "records s nm = Some a"
    by (auto simp: stageData_def)
  have px: "plainOn nm x" and pxs: "\<forall>y \<in> set xs. plainOn nm y" using Cons.prems(7) by auto
  show ?case
  proof (cases x)
    case (StartStage m w)
    then have m: "m = nm" and w: "w \<noteq> 0" using px by auto
    obtain s1 where st: "startStage nm w s = Inr s1" and u: "updates nm (startV w) s s1"
      using startStage_updates[OF Cons.prems(1) rec Cons.prems(2)] by blast
    let ?v1 = "v\<lparr>currentRefTimeV := ArrV (q @ [w])\<rparr>"
    have sd1: "stageData s1 nm = Some ?v1"
      using u Cons.prems(4,5) by (simp add: updates_def startV_def)
    have cfg: "arenaInv s1" "\<not> skipRecording s1" "enableLiveDebug s1"
      "inMemCycles s1 = inMemCycles s"
      using u Cons.prems(2,3) by (simp_all add: updates_def sameConfig_def)
    have cap: "real (length (recentCyclesV ?v1) + length (snd (specFifo (q @ [w]) xs)))
                 < inMemCycles s1"
      using Cons.prems(8) by (simp add: StartStage cfg)
    from Cons.IH[OF cfg(1-3) sd1 _ _ pxs cap] Cons.prems(6) w
    show ?thesis using st by (simp add: StartStage m)
  next
    case (EndStage m event w)
    then have m: "m = nm" and ev: "event = None" using px by auto
    obtain s1 where st: "endStage nm None w s = Inr s1"
      and u: "updates nm (endStageV (enableLiveDebug s) (inMemCycles s) None w) s s1"
      using endStage_effect[OF Cons.prems(1) rec Cons.prems(2)] by blast
    have cfg: "arenaInv s1" "\<not> skipRecording s1" "enableLiveDebug s1"
      "inMemCycles s1 = inMemCycles s"
      using u Cons.prems(2,3) by (simp_all add: updates_def sameConfig_def)
    have sd1: "stageData s1 nm = Some (endStageV True (inMemCycles s) None w v)"
      using u Cons.prems(3,4) by (simp add: updates_def)
    show ?thesis
    proof (cases q)
      case Nil
      then have v1: "endStageV True (inMemCycles s) None w v = v"
        using Cons.prems(5) by (simp add: endStageV_def pendingRef_def)
      have cap: "real (length (recentCyclesV v) + length (snd (specFifo [] xs))) < inMemCycles s1"
        using Cons.prems(8) by (simp add: EndStage Nil cfg)
      from Cons.IH[OF cfg(1-3) sd1[unfolded v1] _ _ pxs cap] Cons.prems(5) Nil
      show ?thesis using st by (simp add: EndStage m ev)
    next
      case (Cons y rest)
      then have y: "y \<noteq> 0" "0 \<notin> set rest" using Cons.prems(6) by auto
      obtain q' cs where sf: "specFifo rest xs = (q', cs)" by (cases "specFifo rest xs")
      let ?c = "\<lparr>r = y, t = w - y\<rparr>"
      have len: "real (length (recentCyclesV v @ [?c])) < inMemCycles s"
        using Cons.prems(8) by (simp add: EndStage Cons sf)
      let ?v1 = "\<lparr>currentRefTimeV = ArrV rest, totalCyclesV = totalCyclesV v + 1,
                  recentCyclesV = recentCyclesV v @ [?c]\<rparr>"
      have v1: "endStageV True (inMemCycles s) None w v = ?v1"
        using Cons.prems(5) Cons y(1) len
        by (simp add: endStageV_def pendingRef_def addCycle_def clearRef_def retain_def)
      have cap: "real (length (recentCyclesV ?v1) + length (snd (specFifo rest xs)))
                   < inMemCycles s1"
        using Cons.prems(8) by (simp add: EndStage Cons sf cfg)
      from Cons.IH[OF cfg(1-3) sd1[unfolded v1] _ y(2) pxs cap]
      show ?thesis using st by (simp add: EndStage m ev Cons sf)
    qed
  next
    case (InitPerformanceData b)
    then show ?thesis using px by simp
  next
    case ResetPerformanceData
    then show ?thesis using px by simp
  qed
qed

text \<open>
  What the code does keep in live debug mode: the history never reaches the length
  \<^verbatim>\<open>inMemCycles\<close>.  An \<^verbatim>\<open>endStage\<close> call that finds it shorter leaves it shorter.
\<close>

lemma live_history_below_capacity:
  assumes "arenaInv s" and "enableLiveDebug s" and "stageData s nm = Some v"
    and "real (length (recentCyclesV v)) < inMemCycles s"
    and "endStage nm event perfNow s = Inr s'"
  shows "\<exists>v'. stageData s' nm = Some v' \<and> real (length (recentCyclesV v')) < inMemCycles s"
proof -
  from endStage_cases[OF assms(1,5)] show ?thesis
  proof
    assume "s' = s \<and> (skipRecording s \<or> records s nm = None)"
    then show ?thesis using assms(3,4) by simp
  next
    assume "\<not> skipRecording s \<and> records s nm \<noteq> None \<and>
          updates nm (endStageV (enableLiveDebug s) (inMemCycles s) event perfNow) s s'"
    then have sd: "stageData s' nm = Some (endStageV True (inMemCycles s) event perfNow v)"
      using assms(2,3) by (simp add: updates_def)
    have "real (length (recentCyclesV (endStageV True (inMemCycles s) event perfNow v)))
            < inMemCycles s"
      using assms(4)
      by (auto simp: endStageV_def takeRef_def retain_def
          split: option.splits RefTimeV.splits)
    then show ?thesis using sd by simp
  qed
qed

text \<open>
  The ordinary case that C1 is about, away from the clock reading 0: on a Sync stage a
  start at \<open>w0\<close> and an end at \<open>w1\<close> record the one cycle \<^verbatim>\<open>{r: w0, t: w1 - w0}\<close>.
\<close>

lemma sync_start_end_records_cycle:
  assumes "arenaInv s" and "\<not> skipRecording s" and "stageData s nm = Some v"
    and "currentRefTimeV v = NumV n" and "w0 \<noteq> 0"
  shows "\<exists>s1 s2. startStage nm w0 s = Inr s1 \<and> endStage nm None w1 s1 = Inr s2 \<and>
           stageData s2 nm =
             Some \<lparr>currentRefTimeV = NumV 0, totalCyclesV = totalCyclesV v + 1,
                   recentCyclesV =
                     retain (enableLiveDebug s) (inMemCycles s)
                       (recentCyclesV v @ [\<lparr>r = w0, t = w1 - w0\<rparr>])\<rparr>"
proof -
  from assms(3) obtain a where rec: "records s nm = Some a" by (auto simp: stageData_def)
  obtain s1 where st: "startStage nm w0 s = Inr s1" and u: "updates nm (startV w0) s s1"
    using startStage_updates[OF assms(1) rec assms(2)] by blast
  let ?v1 = "v\<lparr>currentRefTimeV := NumV w0\<rparr>"
  have sd1: "stageData s1 nm = Some ?v1"
    using u assms(3,4) by (simp add: updates_def startV_def)
  have cfg: "arenaInv s1" "\<not> skipRecording s1" "records s1 nm = Some a"
    "enableLiveDebug s1 = enableLiveDebug s" "inMemCycles s1 = inMemCycles s"
    using u assms(2) rec by (simp_all add: updates_def sameConfig_def)
  obtain s2 where e: "endStage nm None w1 s1 = Inr s2"
    and u2: "updates nm (endStageV (enableLiveDebug s1) (inMemCycles s1) None w1) s1 s2"
    using endStage_effect[OF cfg(1,3,2)] by blast
  have "stageData s2 nm = Some (endStageV (enableLiveDebug s) (inMemCycles s) None w1 ?v1)"
    using u2 sd1 by (simp add: updates_def cfg)
  then show ?thesis using st e assms(5)
    by (simp add: endStageV_def pendingRef_def addCycle_def clearRef_def)
qed

text \<open>A name without an entry in \<^verbatim>\<open>this.records\<close>, own or inherited, is not found.\<close>

lemma getStageArena_no_entry:
  assumes "records s nm = None" and "nm \<notin> set objectPrototypeKeys"
  shows "getStageArena s nm = Undefined"
  using assms by (simp add: getStageArena_def getProp_def)

section \<open>The claims\<close>

text \<open>
  C1.  The specification expects that, for a registered Sync stage with recording
  enabled, \<^verbatim>\<open>startStage\<close> at clock time 0 followed by \<^verbatim>\<open>endStage\<close> (no event) at clock
  time 5 records the one cycle \<^verbatim>\<open>{r: 0, t: 5}\<close> and makes \<^verbatim>\<open>totalCycles\<close> 1.  The code
  does not: \<^verbatim>\<open>startStage\<close> stores 0 in \<^verbatim>\<open>currentRefTime\<close>, and \<^verbatim>\<open>endStage\<close> takes the
  value 0 for "reference time not set" (\<^verbatim>\<open>if (!currentRefTime) return\<close>).  Nothing is
  recorded, in the default mode (first run, with a purge callback, which is never
  called) and in live debug mode (second run).
\<close>

theorem C1_start_at_zero_is_dropped:
  "observe ''render''
     (andThen (andThen (constructor [StageName ''render''] None None None True)
        (startStage ''render'' 0)) (endStage ''render'' None 5))
     = Inr (Some \<lparr>currentRefTimeV = NumV 0, totalCyclesV = 0, recentCyclesV = []\<rparr>)
   \<and> map_sum id purgeCalls
     (andThen (andThen (constructor [StageName ''render''] None None None True)
        (startStage ''render'' 0)) (endStage ''render'' None 5))
     = Inr []
   \<and> observe ''render''
     (andThen (andThen (constructor [StageName ''render''] None None (Some True) False)
        (startStage ''render'' 0)) (endStage ''render'' None 5))
     = Inr (Some \<lparr>currentRefTimeV = NumV 0, totalCyclesV = 0, recentCyclesV = []\<rparr>)"
  by (simp add: run_defs)

text \<open>
  C2 (as the specification states it).  With an event, the specification expects
  \<^verbatim>\<open>endStage\<close> to close the pending reference time: after a start at 1, an end with an
  event stamped 3 would record \<^verbatim>\<open>{r: 1, t: 2}\<close> and clear the slot.  The code takes the
  event's time stamp as the reference time and the clock as the end: it records
  \<^verbatim>\<open>{r: 3, t: 7}\<close> at clock time 10 and leaves the pending start in place.
\<close>

theorem C2_event_closes_pending_counterexample:
  "observe ''s''
     (andThen (andThen (constructor [StageName ''s''] None None (Some True) False)
        (startStage ''s'' 1)) (endStage ''s'' (Some 3) 10))
     = Inr (Some \<lparr>currentRefTimeV = NumV 1, totalCyclesV = 1,
                  recentCyclesV = [\<lparr>r = 3, t = 7\<rparr>]\<rparr>)
   \<and> observe ''s''
     (andThen (andThen (constructor [StageName ''s''] None None (Some True) False)
        (startStage ''s'' 1)) (endStage ''s'' (Some 3) 10))
     \<noteq> Inr (Some \<lparr>currentRefTimeV = NumV 0, totalCyclesV = 1,
                  recentCyclesV = [\<lparr>r = 1, t = 3 - 1\<rparr>]\<rparr>)"
  by (simp add: run_defs)

text \<open>
  C2 (amended).  For a registered stage with recording enabled, \<^verbatim>\<open>endStage\<close> with an
  event whose time stamp is not 0 records the cycle
  \<^verbatim>\<open>{r: event.timeStamp, t: perfNow - event.timeStamp}\<close> and counts it; the pending
  reference time of the stage (Sync slot or Async queue) is left as it was.  What is
  kept of \<^verbatim>\<open>recentCycles\<close> afterwards is \<open>retain\<close>: in live debug mode the list with its
  oldest entry dropped once the length has reached \<^verbatim>\<open>inMemCycles\<close>, otherwise nothing.
\<close>

theorem C2_event_time_is_reference:
  assumes "arenaInv s" and "\<not> skipRecording s" and "stageData s nm = Some v"
    and "timeStamp \<noteq> 0"
  shows "\<exists>s'. endStage nm (Some timeStamp) perfNow s = Inr s' \<and>
           stageData s' nm =
             Some \<lparr>currentRefTimeV = currentRefTimeV v,
                   totalCyclesV = totalCyclesV v + 1,
                   recentCyclesV =
                     retain (enableLiveDebug s) (inMemCycles s)
                       (recentCyclesV v @ [\<lparr>r = timeStamp, t = perfNow - timeStamp\<rparr>])\<rparr>"
proof -
  from assms(3) obtain a where rec: "records s nm = Some a" and v: "v = JSON_stringify s a"
    by (auto simp: stageData_def)
  obtain s' where e: "endStage nm (Some timeStamp) perfNow s = Inr s'"
    and u: "updates nm (endStageV (enableLiveDebug s) (inMemCycles s) (Some timeStamp) perfNow) s s'"
    using endStage_effect[OF assms(1) rec assms(2)] by blast
  have "stageData s' nm =
          Some (endStageV (enableLiveDebug s) (inMemCycles s) (Some timeStamp) perfNow v)"
    using u assms(3) by (simp add: updates_def)
  then show ?thesis using e assms(4)
    by (simp add: endStageV_def pendingRef_def addCycle_def clearRef_def)
qed

theorem C2_event_time_is_reference_witness:
  "arenaInv (after [StartStage ''s'' 1] (arenaOf [StageName ''s''] None None (Some True) False))
   \<and> \<not> skipRecording
         (after [StartStage ''s'' 1] (arenaOf [StageName ''s''] None None (Some True) False))
   \<and> stageData (after [StartStage ''s'' 1] (arenaOf [StageName ''s''] None None (Some True) False))
        ''s'' = Some \<lparr>currentRefTimeV = NumV 1, totalCyclesV = 0, recentCyclesV = []\<rparr>
   \<and> (3::real) \<noteq> 0
   \<and> (\<exists>s'. endStage ''s'' (Some 3) 10
              (after [StartStage ''s'' 1] (arenaOf [StageName ''s''] None None (Some True) False))
              = Inr s' \<and>
            stageData s' ''s'' =
              Some \<lparr>currentRefTimeV = NumV 1, totalCyclesV = 1,
                    recentCyclesV = [\<lparr>r = 3, t = 7\<rparr>]\<rparr>)"
proof -
  let ?A = "after [StartStage ''s'' 1] (arenaOf [StageName ''s''] None None (Some True) False)"
  have 1: "arenaInv ?A" by (rule arenaInv_after[OF arenaInv_arenaOf])
  have 2: "\<not> skipRecording ?A" by (simp add: after_def arenaOf_def run_defs)
  have 3: "stageData ?A ''s'' = Some \<lparr>currentRefTimeV = NumV 1, totalCyclesV = 0, recentCyclesV = []\<rparr>"
    by (simp add: after_def arenaOf_def run_defs)
  have 4: "(3::real) \<noteq> 0" by simp
  have 5: "enableLiveDebug ?A" "inMemCycles ?A = 250"
    by (simp_all add: after_def arenaOf_def run_defs)
  from C2_event_time_is_reference[OF 1 2 3 4, of 10] 1 2 3 show ?thesis
    by (simp add: 5 retain_def)
qed

text \<open>
  C3 (as the specification states it).  The specification expects \<^verbatim>\<open>endStage\<close>, with or
  without an event, to change nothing when the stage has no pending reference time.
  With an event the code does not look at the pending reference time: on a registered
  Sync stage that was never started, \<^verbatim>\<open>endStage\<close> with an event stamped 3 at clock time
  10 records a cycle and counts it.
\<close>

theorem C3_event_without_pending_counterexample:
  "observe ''s'' (constructor [StageName ''s''] None None (Some True) False)
     = Inr (Some \<lparr>currentRefTimeV = NumV 0, totalCyclesV = 0, recentCyclesV = []\<rparr>)
   \<and> observe ''s''
       (andThen (constructor [StageName ''s''] None None (Some True) False)
          (endStage ''s'' (Some 3) 10))
     = Inr (Some \<lparr>currentRefTimeV = NumV 0, totalCyclesV = 1,
                  recentCyclesV = [\<lparr>r = 3, t = 7\<rparr>]\<rparr>)
   \<and> observe ''s''
       (andThen (constructor [StageName ''s''] None None (Some True) False)
          (endStage ''s'' (Some 3) 10))
     \<noteq> observe ''s'' (constructor [StageName ''s''] None None (Some True) False)"
  by (simp add: run_defs)

text \<open>
  C3 (amended).  \<^verbatim>\<open>startStage\<close> and \<^verbatim>\<open>endStage\<close> (with or without an event) return
  normally and leave the whole state as it was, callback log included, when recording is
  disabled or the name has no entry in \<^verbatim>\<open>this.records\<close>, own or inherited.  So does
  \<^verbatim>\<open>endStage\<close> without an event on a registered stage that has no pending reference
  time: a Sync slot holding 0 or an empty Async queue.
\<close>

theorem C3_silent_no_op:
  "(skipRecording s \<or> getStageArena s nm = Undefined \<longrightarrow>
      startStage nm perfNow s = Inr s \<and> endStage nm event perfNow s = Inr s)
   \<and> (arenaInv s \<and> stageData s nm = Some v \<and>
       (currentRefTimeV v = NumV 0 \<or> currentRefTimeV v = ArrV []) \<longrightarrow>
      endStage nm None perfNow s = Inr s)"
proof (intro conjI impI)
  assume "skipRecording s \<or> getStageArena s nm = Undefined"
  then have h: "skipRecording s \<or> getProp (records s) nm = Undefined"
    by (simp add: getStageArena_def)
  show "startStage nm perfNow s = Inr s" by (rule startStage_noop[OF h])
  show "endStage nm event perfNow s = Inr s" by (rule endStage_noop[OF h])
next
  assume h: "arenaInv s \<and> stageData s nm = Some v \<and>
       (currentRefTimeV v = NumV 0 \<or> currentRefTimeV v = ArrV [])"
  then obtain a where rec: "records s nm = Some a" and v: "v = JSON_stringify s a"
    by (auto simp: stageData_def)
  show "endStage nm None perfNow s = Inr s"
  proof (cases "skipRecording s")
    case True
    then show ?thesis by (simp add: endStage_noop)
  next
    case False
    show ?thesis
    proof (cases "currentRefTime (objects s a)")
      case (Num n)
      then have "n = 0" using h v by (auto simp: JSON_stringify_def)
      moreover have "cache s nm = Some Sync" using arenaInv_sync[OF _ rec Num] h by simp
      ultimately show ?thesis using rec False Num
        by (simp add: endStage_def getProp_def resolveRefTime_def)
    next
      case (Arr q)
      then have "numArrays s q = []" using h v by (auto simp: JSON_stringify_def)
      moreover have "cache s nm = Some Async" using arenaInv_async(1)[OF _ rec Arr] h by simp
      ultimately show ?thesis using rec False Arr
        by (simp add: endStage_def getProp_def resolveRefTime_def)
    qed
  qed
qed

theorem C3_silent_no_op_witness:
  "(skipRecording (arenaOf [StageName ''s''] (Some True) None None True)
      \<or> getStageArena (arenaOf [StageName ''s''] (Some True) None None True) ''s'' = Undefined)
   \<and> startStage ''s'' 1 (arenaOf [StageName ''s''] (Some True) None None True)
       = Inr (arenaOf [StageName ''s''] (Some True) None None True)
   \<and> endStage ''s'' (Some 3) 5 (arenaOf [StageName ''s''] (Some True) None None True)
       = Inr (arenaOf [StageName ''s''] (Some True) None None True)
   \<and> (skipRecording (arenaOf [StageName ''s''] None None None True)
      \<or> getStageArena (arenaOf [StageName ''s''] None None None True) ''other'' = Undefined)
   \<and> startStage ''other'' 1 (arenaOf [StageName ''s''] None None None True)
       = Inr (arenaOf [StageName ''s''] None None None True)
   \<and> endStage ''other'' None 5 (arenaOf [StageName ''s''] None None None True)
       = Inr (arenaOf [StageName ''s''] None None None True)
   \<and> arenaInv (arenaOf [StageExtened \<lparr>name = ''q'', type = Some Async\<rparr>] None None None True)
   \<and> stageData (arenaOf [StageExtened \<lparr>name = ''q'', type = Some Async\<rparr>] None None None True)
        ''q'' = Some \<lparr>currentRefTimeV = ArrV [], totalCyclesV = 0, recentCyclesV = []\<rparr>
   \<and> endStage ''q'' None 5
        (arenaOf [StageExtened \<lparr>name = ''q'', type = Some Async\<rparr>] None None None True)
       = Inr (arenaOf [StageExtened \<lparr>name = ''q'', type = Some Async\<rparr>] None None None True)"
proof -
  let ?A = "arenaOf [StageName ''s''] (Some True) None None True"
  let ?B = "arenaOf [StageName ''s''] None None None True"
  let ?C = "arenaOf [StageExtened \<lparr>name = ''q'', type = Some Async\<rparr>] None None None True"
  have a: "skipRecording ?A \<or> getStageArena ?A ''s'' = Undefined"
    by (simp add: arenaOf_def run_defs)
  have b: "skipRecording ?B \<or> getStageArena ?B ''other'' = Undefined"
    by (simp add: arenaOf_def run_defs)
  have c: "arenaInv ?C" by (rule arenaInv_arenaOf)
  have d: "stageData ?C ''q'' = Some \<lparr>currentRefTimeV = ArrV [], totalCyclesV = 0, recentCyclesV = []\<rparr>"
    by (simp add: arenaOf_def run_defs)
  show ?thesis
    using C3_silent_no_op[where s = ?A and nm = "''s''" and perfNow = 1 and event = "Some 3"]
      C3_silent_no_op[where s = ?A and nm = "''s''" and perfNow = 5 and event = "Some 3"]
      C3_silent_no_op[where s = ?B and nm = "''other''" and perfNow = 1 and event = None]
      C3_silent_no_op[where s = ?B and nm = "''other''" and perfNow = 5 and event = None]
      C3_silent_no_op[where s = ?C and nm = "''q''" and perfNow = 5 and
        v = "\<lparr>currentRefTimeV = ArrV [], totalCyclesV = 0, recentCyclesV = []\<rparr>"]
      a b c d
    by simp
qed

text \<open>
  C4 (as the specification states it).  The specification expects every \<^verbatim>\<open>endStage\<close>
  that completes a cycle on an Async stage to resolve against the oldest pending reference
  time.  With an event the code does not: after starts at 1 and 2, an end with an event
  stamped 3 at clock time 10 records \<^verbatim>\<open>{r: 3, t: 7}\<close> and leaves the queue \<^verbatim>\<open>[1, 2]\<close> as
  it was, where the oldest pending reference time is 1.
\<close>

theorem C4_event_end_skips_queue_counterexample:
  "observe ''q''
     (andThen (andThen (andThen
        (constructor [StageExtened \<lparr>name = ''q'', type = Some Async\<rparr>] None None (Some True) False)
        (startStage ''q'' 1)) (startStage ''q'' 2)) (endStage ''q'' (Some 3) 10))
     = Inr (Some \<lparr>currentRefTimeV = ArrV [1, 2], totalCyclesV = 1,
                  recentCyclesV = [\<lparr>r = 3, t = 7\<rparr>]\<rparr>)
   \<and> observe ''q''
     (andThen (andThen (andThen
        (constructor [StageExtened \<lparr>name = ''q'', type = Some Async\<rparr>] None None (Some True) False)
        (startStage ''q'' 1)) (startStage ''q'' 2)) (endStage ''q'' (Some 3) 10))
     \<noteq> Inr (Some \<lparr>currentRefTimeV = ArrV [2], totalCyclesV = 1,
                  recentCyclesV = [\<lparr>r = 1, t = 3 - 1\<rparr>]\<rparr>)
   \<and> observe ''q''
     (andThen (andThen (andThen
        (constructor [StageExtened \<lparr>name = ''q'', type = Some Async\<rparr>] None None (Some True) False)
        (startStage ''q'' 1)) (startStage ''q'' 2)) (endStage ''q'' (Some 3) 10))
     \<noteq> Inr (Some \<lparr>currentRefTimeV = ArrV [2], totalCyclesV = 1,
                  recentCyclesV = [\<lparr>r = 1, t = 10 - 1\<rparr>]\<rparr>)"
  by (simp add: run_defs)

text \<open>
  C4 (amended).  For an Async stage with recording enabled whose queue of pending reference times
  is \<open>q\<close>: \<^verbatim>\<open>startStage\<close> appends the clock reading at the back of the queue, and
  \<^verbatim>\<open>endStage\<close> (without an event) takes the reference time at the front, never another
  one.  On an empty queue it changes nothing.  Otherwise the front \<open>x\<close> is removed, and if
  the call completes a cycle (\<open>x\<close> is not 0) the cycle recorded is
  \<^verbatim>\<open>{r: x, t: perfNow - x}\<close>: it is appended to \<^verbatim>\<open>recentCycles\<close> (of which \<open>retain\<close> is
  kept) and, in steady-state mode with a purge callback, it is the last cycle of the
  snapshot handed to the callback.
\<close>

theorem C4_async_fifo:
  assumes "arenaInv s" and "\<not> skipRecording s" and "stageData s nm = Some v"
    and "currentRefTimeV v = ArrV q"
  shows "(\<exists>s'. startStage nm perfNow s = Inr s' \<and>
            stageData s' nm = Some (v\<lparr>currentRefTimeV := ArrV (q @ [perfNow])\<rparr>))
       \<and> (\<exists>s'. endStage nm None perfNow s = Inr s' \<and>
            (case q of
               [] \<Rightarrow> s' = s
             | x # rest \<Rightarrow>
                 if x = 0
                 then stageData s' nm = Some (v\<lparr>currentRefTimeV := ArrV rest\<rparr>) \<and>
                      purgeCalls s' = purgeCalls s
                 else stageData s' nm =
                        Some \<lparr>currentRefTimeV = ArrV rest,
                              totalCyclesV = totalCyclesV v + 1,
                              recentCyclesV =
                                retain (enableLiveDebug s) (inMemCycles s)
                                  (recentCyclesV v @ [\<lparr>r = x, t = perfNow - x\<rparr>])\<rparr> \<and>
                      (\<not> enableLiveDebug s \<and> onPurgeCallback s \<longrightarrow>
                         (\<exists>snap. purgeCalls s' = purgeCalls s @ [(nm, snap)] \<and>
                            recentCyclesV (JSON_stringify s' snap) =
                              recentCyclesV v @ [\<lparr>r = x, t = perfNow - x\<rparr>]))))"
proof (intro conjI)
  from assms(3) obtain a where rec: "records s nm = Some a" and v: "v = JSON_stringify s a"
    by (auto simp: stageData_def)
  from startStage_updates[OF assms(1) rec assms(2), of perfNow] assms(3,4)
  show "\<exists>s'. startStage nm perfNow s = Inr s' \<and>
            stageData s' nm = Some (v\<lparr>currentRefTimeV := ArrV (q @ [perfNow])\<rparr>)"
    by (auto simp: updates_def startV_def)
  obtain s' where e: "endStage nm None perfNow s = Inr s'"
    and u: "updates nm (endStageV (enableLiveDebug s) (inMemCycles s) None perfNow) s s'"
    and p: "if completes None v \<and> \<not> enableLiveDebug s \<and> onPurgeCallback s
            then \<exists>snap. purgeCalls s' = purgeCalls s @ [(nm, snap)] \<and>
                   JSON_stringify s' snap =
                     addCycle (the (pendingRef None v)) perfNow (clearRef None v) \<and>
                   detached s' snap
            else purgeCalls s' = purgeCalls s"
    using endStage_effect[OF assms(1) rec assms(2), of None perfNow] unfolding v by blast
  have sd: "stageData s' nm = Some (endStageV (enableLiveDebug s) (inMemCycles s) None perfNow v)"
    using u assms(3) by (simp add: updates_def)
  show "\<exists>s'. endStage nm None perfNow s = Inr s' \<and>
            (case q of
               [] \<Rightarrow> s' = s
             | x # rest \<Rightarrow>
                 if x = 0
                 then stageData s' nm = Some (v\<lparr>currentRefTimeV := ArrV rest\<rparr>) \<and>
                      purgeCalls s' = purgeCalls s
                 else stageData s' nm =
                        Some \<lparr>currentRefTimeV = ArrV rest,
                              totalCyclesV = totalCyclesV v + 1,
                              recentCyclesV =
                                retain (enableLiveDebug s) (inMemCycles s)
                                  (recentCyclesV v @ [\<lparr>r = x, t = perfNow - x\<rparr>])\<rparr> \<and>
                      (\<not> enableLiveDebug s \<and> onPurgeCallback s \<longrightarrow>
                         (\<exists>snap. purgeCalls s' = purgeCalls s @ [(nm, snap)] \<and>
                            recentCyclesV (JSON_stringify s' snap) =
                              recentCyclesV v @ [\<lparr>r = x, t = perfNow - x\<rparr>])))"
  proof (cases q)
    case Nil
    have "endStage nm None perfNow s = Inr s"
    proof (cases "currentRefTime (objects s a)")
      case (Num n)
      then show ?thesis using assms(4) v by (simp add: JSON_stringify_def)
    next
      case (Arr qa)
      then have "numArrays s qa = []" using assms(4) v Nil by (simp add: JSON_stringify_def)
      moreover have "cache s nm = Some Async" by (rule arenaInv_async(1)[OF assms(1) rec Arr])
      ultimately show ?thesis using rec assms(2) Arr
        by (simp add: endStage_def getProp_def resolveRefTime_def)
    qed
    then show ?thesis using Nil by simp
  next
    case (Cons x rest)
    then have pend: "pendingRef None v = Some x" using assms(4) by (simp add: pendingRef_def)
    show ?thesis
    proof (cases "x = 0")
      case True
      then have "\<not> completes None v" using pend by (simp add: completes_def)
      then have "purgeCalls s' = purgeCalls s" using p by simp
      moreover have "endStageV (enableLiveDebug s) (inMemCycles s) None perfNow v =
                       v\<lparr>currentRefTimeV := ArrV rest\<rparr>"
        using pend True assms(4) Cons by (simp add: endStageV_def takeRef_def)
      ultimately show ?thesis using e sd Cons True by simp
    next
      case False
      then have c: "completes None v" using pend by (simp add: completes_def)
      have ev: "endStageV (enableLiveDebug s) (inMemCycles s) None perfNow v =
                  \<lparr>currentRefTimeV = ArrV rest,
                   totalCyclesV = totalCyclesV v + 1,
                   recentCyclesV =
                     retain (enableLiveDebug s) (inMemCycles s)
                       (recentCyclesV v @ [\<lparr>r = x, t = perfNow - x\<rparr>])\<rparr>"
        using pend False assms(4) Cons by (simp add: endStageV_def addCycle_def clearRef_def)
      have "\<not> enableLiveDebug s \<and> onPurgeCallback s \<longrightarrow>
              (\<exists>snap. purgeCalls s' = purgeCalls s @ [(nm, snap)] \<and>
                 recentCyclesV (JSON_stringify s' snap) =
                   recentCyclesV v @ [\<lparr>r = x, t = perfNow - x\<rparr>])"
        using p c pend assms(4) by (auto simp: addCycle_def clearRef_def)
      then show ?thesis using e sd ev Cons False by simp
    qed
  qed
qed

theorem C4_async_fifo_witness:
  "arenaInv (after [StartStage ''q'' 1, StartStage ''q'' 2]
               (arenaOf [StageExtened \<lparr>name = ''q'', type = Some Async\<rparr>] None None None True))
   \<and> \<not> skipRecording (after [StartStage ''q'' 1, StartStage ''q'' 2]
               (arenaOf [StageExtened \<lparr>name = ''q'', type = Some Async\<rparr>] None None None True))
   \<and> stageData (after [StartStage ''q'' 1, StartStage ''q'' 2]
               (arenaOf [StageExtened \<lparr>name = ''q'', type = Some Async\<rparr>] None None None True))
        ''q'' = Some \<lparr>currentRefTimeV = ArrV [1, 2], totalCyclesV = 0, recentCyclesV = []\<rparr>
   \<and> \<not> enableLiveDebug (after [StartStage ''q'' 1, StartStage ''q'' 2]
               (arenaOf [StageExtened \<lparr>name = ''q'', type = Some Async\<rparr>] None None None True))
   \<and> onPurgeCallback (after [StartStage ''q'' 1, StartStage ''q'' 2]
               (arenaOf [StageExtened \<lparr>name = ''q'', type = Some Async\<rparr>] None None None True))
   \<and> (\<exists>s'. startStage ''q'' 10 (after [StartStage ''q'' 1, StartStage ''q'' 2]
               (arenaOf [StageExtened \<lparr>name = ''q'', type = Some Async\<rparr>] None None None True))
             = Inr s' \<and>
            stageData s' ''q''
             = Some \<lparr>currentRefTimeV = ArrV [1, 2, 10], totalCyclesV = 0, recentCyclesV = []\<rparr>)
   \<and> (\<exists>s' snap. endStage ''q'' None 10 (after [StartStage ''q'' 1, StartStage ''q'' 2]
               (arenaOf [StageExtened \<lparr>name = ''q'', type = Some Async\<rparr>] None None None True))
             = Inr s' \<and>
            stageData s' ''q''
             = Some \<lparr>currentRefTimeV = ArrV [2], totalCyclesV = 1, recentCyclesV = []\<rparr> \<and>
            purgeCalls s' = [(''q'', snap)] \<and>
            recentCyclesV (JSON_stringify s' snap) = [\<lparr>r = 1, t = 9\<rparr>])"
proof -
  let ?A = "after [StartStage ''q'' 1, StartStage ''q'' 2]
               (arenaOf [StageExtened \<lparr>name = ''q'', type = Some Async\<rparr>] None None None True)"
  let ?v = "\<lparr>currentRefTimeV = ArrV [1, 2], totalCyclesV = 0, recentCyclesV = []\<rparr>"
  have 1: "arenaInv ?A" by (rule arenaInv_after[OF arenaInv_arenaOf])
  have 2: "\<not> skipRecording ?A" by (simp add: after_def arenaOf_def run_defs)
  have 3: "stageData ?A ''q'' = Some ?v" by (simp add: after_def arenaOf_def run_defs)
  have 4: "currentRefTimeV ?v = ArrV [1, 2]" by simp
  have 5: "\<not> enableLiveDebug ?A" "onPurgeCallback ?A" "purgeCalls ?A = []"
    by (simp_all add: after_def arenaOf_def run_defs)
  note c4 = C4_async_fifo[OF 1 2 3 4, of 10]
  from c4 have 6: "\<exists>s'. startStage ''q'' 10 ?A = Inr s' \<and>
            stageData s' ''q''
             = Some \<lparr>currentRefTimeV = ArrV [1, 2, 10], totalCyclesV = 0, recentCyclesV = []\<rparr>"
    by simp
  from c4 5 have 7: "\<exists>s' snap. endStage ''q'' None 10 ?A = Inr s' \<and>
            stageData s' ''q''
             = Some \<lparr>currentRefTimeV = ArrV [2], totalCyclesV = 1, recentCyclesV = []\<rparr> \<and>
            purgeCalls s' = [(''q'', snap)] \<and>
            recentCyclesV (JSON_stringify s' snap) = [\<lparr>r = 1, t = 9\<rparr>]"
    by (auto simp: retain_def)
  show ?thesis using 1 2 3 5 6 7 by blast
qed

text \<open>
  C5.  The specification expects that in live debug mode with capacity C the list
  \<^verbatim>\<open>recentCycles\<close> holds the C most recent cycles and that an entry is evicted only when
  the length exceeds C.  The code evicts as soon as the length reaches C
  (\<^verbatim>\<open>recentCycles.length >= this.inMemCycles\<close>, tested after the push): with capacity 2
  and two completed cycles, only the second one is left.
\<close>

theorem C5_capacity_two_keeps_one:
  "observe ''s''
     (andThen (andThen (andThen (andThen
        (constructor [StageName ''s''] None (Some 2) (Some True) False)
        (startStage ''s'' 1)) (endStage ''s'' None 2))
        (startStage ''s'' 3)) (endStage ''s'' None 4))
     = Inr (Some \<lparr>currentRefTimeV = NumV 0, totalCyclesV = 2,
                  recentCyclesV = [\<lparr>r = 3, t = 1\<rparr>]\<rparr>)"
  by (simp add: run_defs)

text \<open>
  C6.  In steady-state mode (live debug disabled) with a purge callback, an \<^verbatim>\<open>endStage\<close>
  call on a registered stage returns normally.  If it completes a cycle (the reference
  time \<open>x\<close> it resolves is present and not 0), the callback is invoked exactly once: the log
  grows by the one entry \<open>(nm, snap)\<close>.  The snapshot \<open>snap\<close> holds the stage's record as it
  was at that moment, the new cycle included; overwriting the snapshot object and its
  arrays with anything at all (\<open>mutateSnapshot\<close>) changes the data of no registered stage;
  and the live \<^verbatim>\<open>recentCycles\<close> is empty when the call returns.  If no cycle is completed,
  the callback is not invoked.
\<close>

theorem C6_purge_once_with_detached_snapshot:
  assumes "arenaInv s" and "\<not> skipRecording s" and "\<not> enableLiveDebug s"
    and "onPurgeCallback s" and "stageData s nm = Some v"
  shows "\<exists>s'. endStage nm event perfNow s = Inr s' \<and>
           (case pendingRef event v of
              None \<Rightarrow> purgeCalls s' = purgeCalls s
            | Some x \<Rightarrow>
                if x = 0 then purgeCalls s' = purgeCalls s
                else (\<exists>snap v'.
                  purgeCalls s' = purgeCalls s @ [(nm, snap)] \<and>
                  JSON_stringify s' snap =
                    \<lparr>currentRefTimeV = currentRefTimeV (clearRef event v),
                     totalCyclesV = totalCyclesV v + 1,
                     recentCyclesV = recentCyclesV v @ [\<lparr>r = x, t = perfNow - x\<rparr>]\<rparr> \<and>
                  (\<forall>ob cs ns m. stageData (mutateSnapshot snap ob cs ns s') m = stageData s' m) \<and>
                  stageData s' nm = Some v' \<and> recentCyclesV v' = []))"
proof -
  from assms(5) obtain a where rec: "records s nm = Some a" and v: "v = JSON_stringify s a"
    by (auto simp: stageData_def)
  obtain s' where e: "endStage nm event perfNow s = Inr s'"
    and u: "updates nm (endStageV (enableLiveDebug s) (inMemCycles s) event perfNow) s s'"
    and p: "if completes event v \<and> \<not> enableLiveDebug s \<and> onPurgeCallback s
            then \<exists>snap. purgeCalls s' = purgeCalls s @ [(nm, snap)] \<and>
                   JSON_stringify s' snap =
                     addCycle (the (pendingRef event v)) perfNow (clearRef event v) \<and>
                   detached s' snap
            else purgeCalls s' = purgeCalls s"
    using endStage_effect[OF assms(1) rec assms(2), of event perfNow] unfolding v by blast
  have sd: "stageData s' nm = Some (endStageV False (inMemCycles s) event perfNow v)"
    using u assms(3,5) by (simp add: updates_def)
  show ?thesis
  proof (cases "pendingRef event v")
    case None
    then show ?thesis using e p by (auto simp: completes_def)
  next
    case (Some x)
    show ?thesis
    proof (cases "x = 0")
      case True
      then show ?thesis using e p Some by (auto simp: completes_def)
    next
      case False
      then have c: "completes event v" using Some by (simp add: completes_def)
      from p c assms(3,4) Some obtain snap where
        1: "purgeCalls s' = purgeCalls s @ [(nm, snap)]" and
        2: "JSON_stringify s' snap = addCycle x perfNow (clearRef event v)" and
        3: "detached s' snap"
        by auto
      have 4: "recentCyclesV (endStageV False (inMemCycles s) event perfNow v) = []"
        using Some False by (simp add: endStageV_def retain_def)
      have 5: "addCycle x perfNow (clearRef event v) =
                 \<lparr>currentRefTimeV = currentRefTimeV (clearRef event v),
                  totalCyclesV = totalCyclesV v + 1,
                  recentCyclesV = recentCyclesV v @ [\<lparr>r = x, t = perfNow - x\<rparr>]\<rparr>"
        by (auto simp: addCycle_def clearRef_def split: option.splits RefTimeV.splits)
      show ?thesis using e Some False 1 2 3 4 5 sd by (auto simp: detached_def)
    qed
  qed
qed

theorem C6_purge_once_with_detached_snapshot_witness:
  "arenaInv (after [StartStage ''render'' 1] (arenaOf [StageName ''render''] None None None True))
   \<and> \<not> skipRecording
         (after [StartStage ''render'' 1] (arenaOf [StageName ''render''] None None None True))
   \<and> \<not> enableLiveDebug
         (after [StartStage ''render'' 1] (arenaOf [StageName ''render''] None None None True))
   \<and> onPurgeCallback
         (after [StartStage ''render'' 1] (arenaOf [StageName ''render''] None None None True))
   \<and> stageData
         (after [StartStage ''render'' 1] (arenaOf [StageName ''render''] None None None True))
         ''render'' = Some \<lparr>currentRefTimeV = NumV 1, totalCyclesV = 0, recentCyclesV = []\<rparr>
   \<and> (\<exists>s' snap v'.
         endStage ''render'' None 5
           (after [StartStage ''render'' 1] (arenaOf [StageName ''render''] None None None True))
           = Inr s' \<and>
         purgeCalls s' = [(''render'', snap)] \<and>
         JSON_stringify s' snap =
           \<lparr>currentRefTimeV = NumV 0, totalCyclesV = 1, recentCyclesV = [\<lparr>r = 1, t = 4\<rparr>]\<rparr> \<and>
         (\<forall>ob cs ns m. stageData (mutateSnapshot snap ob cs ns s') m = stageData s' m) \<and>
         stageData s' ''render'' = Some v' \<and> recentCyclesV v' = [])"
proof -
  let ?A = "after [StartStage ''render'' 1] (arenaOf [StageName ''render''] None None None True)"
  let ?v = "\<lparr>currentRefTimeV = NumV 1, totalCyclesV = 0, recentCyclesV = []\<rparr>"
  have 1: "arenaInv ?A" by (rule arenaInv_after[OF arenaInv_arenaOf])
  have 2: "\<not> skipRecording ?A" by (simp add: after_def arenaOf_def run_defs)
  have 3: "\<not> enableLiveDebug ?A" by (simp add: after_def arenaOf_def run_defs)
  have 4: "onPurgeCallback ?A" by (simp add: after_def arenaOf_def run_defs)
  have 5: "stageData ?A ''render'' = Some ?v" by (simp add: after_def arenaOf_def run_defs)
  have 6: "purgeCalls ?A = []" by (simp add: after_def arenaOf_def run_defs)
  have 7: "pendingRef None ?v = Some 1" "clearRef None ?v = ?v\<lparr>currentRefTimeV := NumV 0\<rparr>"
    by (simp_all add: pendingRef_def clearRef_def)
  from C6_purge_once_with_detached_snapshot[OF 1 2 3 4 5, of None 5]
  obtain s' snap v' where
    "endStage ''render'' None 5 ?A = Inr s'"
    "purgeCalls s' = [(''render'', snap)]"
    "JSON_stringify s' snap =
           \<lparr>currentRefTimeV = NumV 0, totalCyclesV = 1, recentCyclesV = [\<lparr>r = 1, t = 4\<rparr>]\<rparr>"
    "\<forall>ob cs ns m. stageData (mutateSnapshot snap ob cs ns s') m = stageData s' m"
    "stageData s' ''render'' = Some v'" "recentCyclesV v' = []"
    unfolding 6 7 by auto
  then show ?thesis using 1 2 3 4 5 by blast
qed

text \<open>
  C7 (as the specification states it).  The specification expects \<^verbatim>\<open>totalCycles\<close> to be
  the number of completed start/end pairs.  An \<^verbatim>\<open>endStage\<close> with an event is counted by
  the code without any start: on a stage that \<^verbatim>\<open>startStage\<close> was never called on
  (\<open>startCount\<close> is 0, so there is no pair), an end with an event stamped 4 at clock time 9
  makes \<^verbatim>\<open>totalCycles\<close> 1.
\<close>

theorem C7_event_end_counts_without_start_counterexample:
  "observe ''render''
     (andThen (constructor [StageName ''render''] None None None True)
        (applyOps [EndStage ''render'' (Some 4) 9]))
     = Inr (Some \<lparr>currentRefTimeV = NumV 0, totalCyclesV = 1, recentCyclesV = []\<rparr>)
   \<and> startCount ''render'' [EndStage ''render'' (Some 4) 9] = 0"
  by (simp add: run_defs)

text \<open>
  C7 (amended).  For every registered stage \<open>m\<close>:

  \<^item> over every sequence of \<^verbatim>\<open>startStage\<close>, \<^verbatim>\<open>endStage\<close> and \<^verbatim>\<open>init-performance-data\<close>
    operations (on any stages, in either mode, hence with all the evictions and purges
    they cause) the counter \<^verbatim>\<open>totalCycles\<close> of \<open>m\<close> never decreases, and in steady-state
    mode with a purge callback it grows by exactly the number of records of \<open>m\<close> handed
    to the callback (\<open>deliveries\<close>), although none of them is kept;
  \<^item> with recording enabled, starting with no pending reference time, over every sequence
    of \<^verbatim>\<open>startStage\<close> and \<^verbatim>\<open>endStage\<close> calls in which the starts on \<open>m\<close> happen at clock
    times other than 0 and the events given to ends on \<open>m\<close> have time stamps other than 0,
    the counter grows by \<open>pairCount\<close>: the number of ends without event that find a start
    pending (Sync: a start since the last such end; Async: a start still in the queue),
    plus the number of ends with an event, each of which the code records as a cycle of its
    own;
  \<^item> \<^verbatim>\<open>purgeArena\<close> on a registered stage leaves the counter of \<open>m\<close> as it is;
  \<^item> the reset (\<^verbatim>\<open>initializePerformanceData\<close> with the force flag on \<^verbatim>\<open>this.stages\<close>)
    succeeds and sets it to 0.
\<close>

theorem C7_lifetime_counter:
  assumes "arenaInv s" and "stageData s m = Some v"
  shows "(ResetPerformanceData \<notin> set xs \<and> applyOps xs s = Inr s' \<longrightarrow>
            (\<exists>v'. stageData s' m = Some v' \<and>
                  totalCyclesV v \<le> totalCyclesV v' \<and>
                  (\<not> enableLiveDebug s \<and> onPurgeCallback s \<longrightarrow>
                     deliveries m s' + totalCyclesV v = deliveries m s + totalCyclesV v')))
       \<and> (\<not> skipRecording s \<and> (currentRefTimeV v = NumV 0 \<or> currentRefTimeV v = ArrV []) \<and>
          (\<forall>x \<in> set xs. timed m x) \<and> applyOps xs s = Inr s' \<longrightarrow>
            (\<exists>v'. stageData s' m = Some v' \<and>
                  totalCyclesV v' = totalCyclesV v + pairCount m (idlePending v) xs))
       \<and> (records s nm \<noteq> None \<longrightarrow>
            (\<exists>s2 v2. purgeArena nm s = Inr s2 \<and> stageData s2 m = Some v2 \<and>
                     totalCyclesV v2 = totalCyclesV v))
       \<and> (\<exists>s3 v3. resetPerformanceData s = Inr s3 \<and> stageData s3 m = Some v3 \<and>
                   totalCyclesV v3 = 0)"
proof (intro conjI impI)
  assume h: "ResetPerformanceData \<notin> set xs \<and> applyOps xs s = Inr s'"
  from applyOps_total[OF assms(1) _ _ assms(2), of xs s'] h
  obtain v' where v': "stageData s' m = Some v'"
    "totalCyclesV v' = totalCyclesV v + recordedCount m xs s" by auto
  have "\<not> enableLiveDebug s \<and> onPurgeCallback s \<longrightarrow>
          deliveries m s' + totalCyclesV v = deliveries m s + totalCyclesV v'"
    using applyOps_deliveries[OF assms(1), of xs s' m] h v'(2) by auto
  then show "\<exists>v'. stageData s' m = Some v' \<and>
             totalCyclesV v \<le> totalCyclesV v' \<and>
             (\<not> enableLiveDebug s \<and> onPurgeCallback s \<longrightarrow>
                deliveries m s' + totalCyclesV v = deliveries m s + totalCyclesV v')"
    using v' by auto
next
  assume h: "\<not> skipRecording s \<and> (currentRefTimeV v = NumV 0 \<or> currentRefTimeV v = ArrV []) \<and>
          (\<forall>x \<in> set xs. timed m x) \<and> applyOps xs s = Inr s'"
  then have tr: "tracks (idlePending v) (currentRefTimeV v)"
    by (auto simp: idlePending_def)
  from pair_run[OF assms(1) _ assms(2) tr, of xs s'] h
  show "\<exists>v'. stageData s' m = Some v' \<and>
             totalCyclesV v' = totalCyclesV v + pairCount m (idlePending v) xs"
    by blast
next
  assume "records s nm \<noteq> None"
  then obtain a where rec: "records s nm = Some a" by auto
  from purgeArena_effect[OF assms(1) rec] obtain s2 where
    p: "purgeArena nm s = Inr s2" and u: "updates nm (\<lambda>v. v\<lparr>recentCyclesV := []\<rparr>) s s2"
    by blast
  have "\<exists>v2. stageData s2 m = Some v2 \<and> totalCyclesV v2 = totalCyclesV v"
    using u assms(2) by (cases "m = nm") (auto simp: updates_def)
  then show "\<exists>s2 v2. purgeArena nm s = Inr s2 \<and> stageData s2 m = Some v2 \<and>
                     totalCyclesV v2 = totalCyclesV v"
    using p by blast
next
  from assms(2) have "m \<in> dom (records s)" by (auto simp: stageData_def)
  with resetPerformanceData_effect[OF assms(1)]
  obtain s3 ty where "resetPerformanceData s = Inr s3" "stageData s3 m = Some (freshData ty)"
    by blast
  then show "\<exists>s3 v3. resetPerformanceData s = Inr s3 \<and> stageData s3 m = Some v3 \<and>
                   totalCyclesV v3 = 0"
    by (auto simp: freshData_def)
qed

theorem C7_lifetime_counter_witness:
  "arenaInv (arenaOf [StageName ''a''] None None None True)
   \<and> stageData (arenaOf [StageName ''a''] None None None True) ''a''
       = Some \<lparr>currentRefTimeV = NumV 0, totalCyclesV = 0, recentCyclesV = []\<rparr>
   \<and> ResetPerformanceData \<notin> set [StartStage ''a'' 1, EndStage ''a'' None 2, EndStage ''a'' None 3,
                                    StartStage ''a'' 4, EndStage ''a'' (Some 7) 9]
   \<and> applyOps [StartStage ''a'' 1, EndStage ''a'' None 2, EndStage ''a'' None 3,
               StartStage ''a'' 4, EndStage ''a'' (Some 7) 9]
        (arenaOf [StageName ''a''] None None None True)
       = Inr (after [StartStage ''a'' 1, EndStage ''a'' None 2, EndStage ''a'' None 3,
                     StartStage ''a'' 4, EndStage ''a'' (Some 7) 9]
                (arenaOf [StageName ''a''] None None None True))
   \<and> \<not> enableLiveDebug (arenaOf [StageName ''a''] None None None True)
   \<and> onPurgeCallback (arenaOf [StageName ''a''] None None None True)
   \<and> \<not> skipRecording (arenaOf [StageName ''a''] None None None True)
   \<and> timed ''a'' (StartStage ''a'' 1) \<and> timed ''a'' (EndStage ''a'' None 2)
   \<and> timed ''a'' (EndStage ''a'' None 3) \<and> timed ''a'' (StartStage ''a'' 4)
   \<and> timed ''a'' (EndStage ''a'' (Some 7) 9)
   \<and> pairCount ''a'' (Slot None)
        [StartStage ''a'' 1, EndStage ''a'' None 2, EndStage ''a'' None 3,
         StartStage ''a'' 4, EndStage ''a'' (Some 7) 9] = 2
   \<and> stageData (after [StartStage ''a'' 1, EndStage ''a'' None 2, EndStage ''a'' None 3,
                       StartStage ''a'' 4, EndStage ''a'' (Some 7) 9]
                  (arenaOf [StageName ''a''] None None None True)) ''a''
       = Some \<lparr>currentRefTimeV = NumV 4, totalCyclesV = 2, recentCyclesV = []\<rparr>
   \<and> deliveries ''a'' (after [StartStage ''a'' 1, EndStage ''a'' None 2, EndStage ''a'' None 3,
                              StartStage ''a'' 4, EndStage ''a'' (Some 7) 9]
                         (arenaOf [StageName ''a''] None None None True)) = 2
   \<and> records (arenaOf [StageName ''a''] None None None True) ''a'' \<noteq> None
   \<and> (\<exists>s2 v2. purgeArena ''a'' (arenaOf [StageName ''a''] None None None True) = Inr s2
         \<and> stageData s2 ''a'' = Some v2 \<and> totalCyclesV v2 = 0)
   \<and> (\<exists>s3 v3. resetPerformanceData (arenaOf [StageName ''a''] None None None True)
                 = Inr s3 \<and> stageData s3 ''a'' = Some v3 \<and> totalCyclesV v3 = 0)"
proof -
  let ?A = "arenaOf [StageName ''a''] None None None True"
  let ?xs = "[StartStage ''a'' 1, EndStage ''a'' None 2, EndStage ''a'' None 3,
              StartStage ''a'' 4, EndStage ''a'' (Some 7) 9]"
  let ?v = "\<lparr>currentRefTimeV = NumV 0, totalCyclesV = 0, recentCyclesV = []\<rparr>"
  have 1: "arenaInv ?A" by (rule arenaInv_arenaOf)
  have 2: "stageData ?A ''a'' = Some ?v" by (simp add: arenaOf_def run_defs)
  have 3: "ResetPerformanceData \<notin> set ?xs" by simp
  have 4: "applyOps ?xs ?A = Inr (after ?xs ?A)" by (simp add: after_def arenaOf_def run_defs)
  have 5: "records ?A ''a'' \<noteq> None" by (simp add: arenaOf_def run_defs)
  have 6: "\<not> enableLiveDebug ?A" "onPurgeCallback ?A" "deliveries ''a'' ?A = 0"
    "\<not> skipRecording ?A"
    by (simp_all add: arenaOf_def run_defs deliveries_def)
  have 7: "timed ''a'' (StartStage ''a'' 1)" "timed ''a'' (EndStage ''a'' None 2)"
    "timed ''a'' (EndStage ''a'' None 3)" "timed ''a'' (StartStage ''a'' 4)"
    "timed ''a'' (EndStage ''a'' (Some 7) 9)"
    by simp_all
  then have 8: "\<forall>x \<in> set ?xs. timed ''a'' x" by simp
  have 9: "idlePending ?v = Slot None" by (simp add: idlePending_def)
  have 10: "pairCount ''a'' (Slot None) ?xs = 2" by simp
  note c7 = C7_lifetime_counter[OF 1 2, of ?xs "after ?xs ?A" "''a''"]
  from c7 6(4) 8 4 obtain v' where v': "stageData (after ?xs ?A) ''a'' = Some v'"
    "totalCyclesV v' = 2" unfolding 9 10 by auto
  have 11: "stageData (after ?xs ?A) ''a''
       = Some \<lparr>currentRefTimeV = NumV 4, totalCyclesV = 2, recentCyclesV = []\<rparr>"
    by (simp add: after_def arenaOf_def run_defs)
  from c7 3 4 6 11 have 12: "deliveries ''a'' (after ?xs ?A) = 2" by auto
  from c7 5 have 13: "\<exists>s2 v2. purgeArena ''a'' ?A = Inr s2
         \<and> stageData s2 ''a'' = Some v2 \<and> totalCyclesV v2 = 0" by simp
  from c7 have 14: "\<exists>s3 v3. resetPerformanceData ?A
                 = Inr s3 \<and> stageData s3 ''a'' = Some v3 \<and> totalCyclesV v3 = 0" by simp
  show ?thesis using 1 2 3 4 5 6 7 10 11 12 13 14 by blast
qed

text \<open>
  C8.  Without the force flag, \<^verbatim>\<open>initializePerformanceData\<close> throws as soon as the list
  holds a name that is already registered, and also when the list itself holds a name
  twice; so the constructor, which calls it on an empty registry, throws on a list with a
  repeated name.  With the force flag it succeeds on every list of names (other than
  \<^verbatim>\<open>__proto__\<close>, which no reachable arena has registered), and each stage of the list
  then has a new record: \<^verbatim>\<open>totalCycles\<close> 0, \<^verbatim>\<open>recentCycles\<close> empty and no pending
  reference time (\<open>freshData\<close>), whatever it held before.
\<close>

theorem C8_duplicate_throws_force_rebuilds:
  "(records s nm \<noteq> None \<and> nm \<in> stageNameOf ` set stgs \<longrightarrow>
      initializePerformanceData stgs False s = Inl DuplicateStage)
   \<and> (\<not> distinct (map stageNameOf stgs) \<longrightarrow>
      initializePerformanceData stgs False s = Inl DuplicateStage \<and>
      constructor stgs skipRec inMem liveDebug onPurge = Inl DuplicateStage)
   \<and> (arenaInv s \<and> (\<forall>stage \<in> set stgs. stageNameOf stage \<noteq> ''__proto__'') \<longrightarrow>
      (\<exists>s'. initializePerformanceData stgs True s = Inr s' \<and>
         (\<forall>stage \<in> set stgs. \<exists>ty. stageData s' (stageNameOf stage) = Some (freshData ty))))"
proof (intro conjI impI)
  assume "records s nm \<noteq> None \<and> nm \<in> stageNameOf ` set stgs"
  then have "\<exists>stage \<in> set stgs. records s (stageNameOf stage) \<noteq> None" by auto
  then show "initializePerformanceData stgs False s = Inl DuplicateStage"
    by (rule initializePerformanceData_duplicate)
next
  assume d: "\<not> distinct (map stageNameOf stgs)"
  show "initializePerformanceData stgs False s = Inl DuplicateStage"
    by (rule initializePerformanceData_repeated[OF d])
  show "constructor stgs skipRec inMem liveDebug onPurge = Inl DuplicateStage"
    unfolding constructor_def by (rule initializePerformanceData_repeated[OF d])
next
  assume h: "arenaInv s \<and> (\<forall>stage \<in> set stgs. stageNameOf stage \<noteq> ''__proto__'')"
  then obtain s' where r: "initializePerformanceData stgs True s = Inr s'"
    using initializePerformanceData_force by blast
  from initializePerformanceData_inv[OF _ r] h
  have "\<forall>m \<in> stageNameOf ` set stgs. \<exists>ty. stageData s' m = Some (freshData ty)" by blast
  then show "\<exists>s'. initializePerformanceData stgs True s = Inr s' \<and>
         (\<forall>stage \<in> set stgs. \<exists>ty. stageData s' (stageNameOf stage) = Some (freshData ty))"
    using r by auto
qed

theorem C8_duplicate_throws_force_rebuilds_witness:
  "records (after [StartStage ''a'' 1, EndStage ''a'' None 4]
              (arenaOf [StageName ''a''] None None (Some True) False)) ''a'' \<noteq> None
   \<and> ''a'' \<in> stageNameOf ` set [StageName ''b'', StageName ''a'']
   \<and> initializePerformanceData [StageName ''b'', StageName ''a''] False
        (after [StartStage ''a'' 1, EndStage ''a'' None 4]
           (arenaOf [StageName ''a''] None None (Some True) False)) = Inl DuplicateStage
   \<and> \<not> distinct (map stageNameOf
          [StageName ''a'', StageExtened \<lparr>name = ''b'', type = None\<rparr>,
           StageExtened \<lparr>name = ''a'', type = Some Async\<rparr>])
   \<and> constructor [StageName ''a'', StageExtened \<lparr>name = ''b'', type = None\<rparr>,
                   StageExtened \<lparr>name = ''a'', type = Some Async\<rparr>] None None None True
       = Inl DuplicateStage
   \<and> arenaInv (after [StartStage ''a'' 1, EndStage ''a'' None 4]
                 (arenaOf [StageName ''a''] None None (Some True) False))
   \<and> stageNameOf (StageName ''b'') \<noteq> ''__proto__''
   \<and> stageNameOf (StageName ''a'') \<noteq> ''__proto__''
   \<and> stageData (after [StartStage ''a'' 1, EndStage ''a'' None 4]
                  (arenaOf [StageName ''a''] None None (Some True) False)) ''a''
       = Some \<lparr>currentRefTimeV = NumV 0, totalCyclesV = 1, recentCyclesV = [\<lparr>r = 1, t = 3\<rparr>]\<rparr>
   \<and> (\<exists>s'. initializePerformanceData [StageName ''b'', StageName ''a''] True
              (after [StartStage ''a'' 1, EndStage ''a'' None 4]
                 (arenaOf [StageName ''a''] None None (Some True) False)) = Inr s' \<and>
            (\<exists>ty. stageData s' ''a'' = Some (freshData ty)) \<and>
            (\<exists>ty. stageData s' ''b'' = Some (freshData ty)))"
proof -
  let ?A = "after [StartStage ''a'' 1, EndStage ''a'' None 4]
              (arenaOf [StageName ''a''] None None (Some True) False)"
  let ?L = "[StageName ''b'', StageName ''a'']"
  let ?D = "[StageName ''a'', StageExtened \<lparr>name = ''b'', type = None\<rparr>,
             StageExtened \<lparr>name = ''a'', type = Some Async\<rparr>]"
  have 1: "records ?A ''a'' \<noteq> None" by (simp add: after_def arenaOf_def run_defs)
  have 2: "''a'' \<in> stageNameOf ` set ?L" by (simp add: stageNameOf_def)
  have 3: "arenaInv ?A" by (rule arenaInv_after[OF arenaInv_arenaOf])
  have 4: "\<forall>stage \<in> set ?L. stageNameOf stage \<noteq> ''__proto__''" by (simp add: stageNameOf_def)
  have 5: "stageData ?A ''a''
       = Some \<lparr>currentRefTimeV = NumV 0, totalCyclesV = 1, recentCyclesV = [\<lparr>r = 1, t = 3\<rparr>]\<rparr>"
    by (simp add: after_def arenaOf_def run_defs)
  note c8 = C8_duplicate_throws_force_rebuilds[of ?A "''a''" ?L]
  have 6: "initializePerformanceData ?L False ?A = Inl DuplicateStage"
    using c8 1 2 by blast
  obtain s' where 7: "initializePerformanceData ?L True ?A = Inr s'"
    and 8: "\<forall>stage \<in> set ?L. \<exists>ty. stageData s' (stageNameOf stage) = Some (freshData ty)"
    using c8 3 4 by blast
  from 8 have 9: "\<exists>ty. stageData s' ''a'' = Some (freshData ty)"
    "\<exists>ty. stageData s' ''b'' = Some (freshData ty)"
    by (simp_all add: stageNameOf_def)
  have 10: "stageNameOf (StageName ''b'') \<noteq> ''__proto__''"
    "stageNameOf (StageName ''a'') \<noteq> ''__proto__''"
    by (simp_all add: stageNameOf_def)
  have 11: "\<not> distinct (map stageNameOf ?D)" by (simp add: stageNameOf_def)
  have 12: "constructor ?D None None None True = Inl DuplicateStage"
    using C8_duplicate_throws_force_rebuilds[where stgs = ?D] 11 by blast
  show ?thesis using 1 2 3 5 6 7 9 10 11 12 by blast
qed

text \<open>
  C9.  The specification expects \<^verbatim>\<open>getStageArena(name)\<close> to return \<^verbatim>\<open>undefined\<close> for
  every name that was never registered.  \<^verbatim>\<open>this.records\<close> is an object literal, so the
  read \<^verbatim>\<open>this.records[name]\<close> also finds what \<^verbatim>\<open>Object.prototype\<close> provides: for the
  name \<^verbatim>\<open>toString\<close>, never registered, the call returns the inherited built-in function.
\<close>

theorem C9_inherited_name_is_found:
  "map_sum id (\<lambda>s. (records s ''toString'', getStageArena s ''toString''))
     (constructor [StageName ''render''] None None None True)
     = Inr (None, Inherited)"
  by (simp add: run_defs)

text \<open>
  C10.  In steady-state mode without a purge callback, an \<^verbatim>\<open>endStage\<close> call that
  completes a cycle on a registered stage returns normally: \<^verbatim>\<open>totalCycles\<close> is
  incremented, \<^verbatim>\<open>recentCycles\<close> is empty afterwards, and nothing is delivered (the
  callback log is unchanged).
\<close>

theorem C10_no_callback_discards:
  assumes "arenaInv s" and "\<not> skipRecording s" and "\<not> enableLiveDebug s"
    and "\<not> onPurgeCallback s" and "stageData s nm = Some v"
    and "pendingRef event v = Some x" and "x \<noteq> 0"
  shows "\<exists>s' v'. endStage nm event perfNow s = Inr s' \<and> stageData s' nm = Some v' \<and>
           totalCyclesV v' = totalCyclesV v + 1 \<and> recentCyclesV v' = [] \<and>
           purgeCalls s' = purgeCalls s"
proof -
  from assms(5) obtain a where rec: "records s nm = Some a" and v: "v = JSON_stringify s a"
    by (auto simp: stageData_def)
  obtain s' where e: "endStage nm event perfNow s = Inr s'"
    and u: "updates nm (endStageV (enableLiveDebug s) (inMemCycles s) event perfNow) s s'"
    and p: "purgeCalls s' = purgeCalls s"
    using endStage_effect[OF assms(1) rec assms(2), of event perfNow] assms(4) by auto
  have sd: "stageData s' nm = Some (endStageV False (inMemCycles s) event perfNow v)"
    using u assms(3,5) by (simp add: updates_def)
  have "totalCyclesV (endStageV False (inMemCycles s) event perfNow v) = totalCyclesV v + 1"
    "recentCyclesV (endStageV False (inMemCycles s) event perfNow v) = []"
    using assms(6,7)
    by (auto simp: endStageV_def retain_def addCycle_def clearRef_def
        split: option.splits RefTimeV.splits)
  then show ?thesis using e sd p by simp
qed

theorem C10_no_callback_discards_witness:
  "arenaInv (after [StartStage ''render'' 1] (arenaOf [StageName ''render''] None None None False))
   \<and> \<not> skipRecording
         (after [StartStage ''render'' 1] (arenaOf [StageName ''render''] None None None False))
   \<and> \<not> enableLiveDebug
         (after [StartStage ''render'' 1] (arenaOf [StageName ''render''] None None None False))
   \<and> \<not> onPurgeCallback
         (after [StartStage ''render'' 1] (arenaOf [StageName ''render''] None None None False))
   \<and> stageData
         (after [StartStage ''render'' 1] (arenaOf [StageName ''render''] None None None False))
         ''render'' = Some \<lparr>currentRefTimeV = NumV 1, totalCyclesV = 0, recentCyclesV = []\<rparr>
   \<and> pendingRef None \<lparr>currentRefTimeV = NumV 1, totalCyclesV = 0, recentCyclesV = []\<rparr> = Some 1
   \<and> (1::real) \<noteq> 0
   \<and> (\<exists>s' v'.
         endStage ''render'' None 5
           (after [StartStage ''render'' 1] (arenaOf [StageName ''render''] None None None False))
           = Inr s' \<and>
         stageData s' ''render'' = Some v' \<and> totalCyclesV v' = 1 \<and> recentCyclesV v' = [] \<and>
         purgeCalls s' = [])"
proof -
  let ?A = "after [StartStage ''render'' 1] (arenaOf [StageName ''render''] None None None False)"
  let ?v = "\<lparr>currentRefTimeV = NumV 1, totalCyclesV = 0, recentCyclesV = []\<rparr>"
  have 1: "arenaInv ?A" by (rule arenaInv_after[OF arenaInv_arenaOf])
  have 2: "\<not> skipRecording ?A" by (simp add: after_def arenaOf_def run_defs)
  have 3: "\<not> enableLiveDebug ?A" by (simp add: after_def arenaOf_def run_defs)
  have 4: "\<not> onPurgeCallback ?A" by (simp add: after_def arenaOf_def run_defs)
  have 5: "stageData ?A ''render'' = Some ?v" by (simp add: after_def arenaOf_def run_defs)
  have 6: "purgeCalls ?A = []" by (simp add: after_def arenaOf_def run_defs)
  have 7: "pendingRef None ?v = Some 1" by (simp add: pendingRef_def)
  have 8: "(1::real) \<noteq> 0" by simp
  from C10_no_callback_discards[OF 1 2 3 4 5 7 8, of 5] 1 2 3 4 5 7
  show ?thesis unfolding 6 by simp
qed

end
